theory Spec2Isabelle
  imports Complex_Main
begin

section \<open>Data model\<close>

text \<open>
  A pandas cell is a missing value (NaN / None), a number, or a string.  A Series is a
  list of cells read by position (the index is the default RangeIndex after
  \<^verbatim>\<open>reset_index(drop=True)\<close> or a CSV read).  A string is the list of its code points,
  one \<open>char\<close> each, for the code points below 256 (\<open>CHR 0xA0\<close> is the no-break space).
\<close>

datatype cell = Missing | Num real | Str string

type_synonym series = "cell list"

definition isna :: "cell \<Rightarrow> bool" where
  "isna c = (c = Missing)"

section \<open>utils.py: check_consecutive_nans_optimized\<close>

definition DEFAULT_GAP_THRESHOLD :: int where
  "DEFAULT_GAP_THRESHOLD = 10"

text \<open>\<^verbatim>\<open>series.isna() | (series == "")\<close>, cell by cell.\<close>

definition is_null_cell :: "cell \<Rightarrow> bool" where
  "is_null_cell c = (isna c \<or> c = Str [])"

text \<open>\<^verbatim>\<open>Series.shift()\<close>: every value moves one row down, the first row is missing.\<close>

definition shift_down :: "'a list \<Rightarrow> 'a option list" where
  "shift_down xs = take (length xs) (None # map Some xs)"

text \<open>\<^verbatim>\<open>is_null.ne(is_null.shift())\<close>: a row is a change point when it differs from the
  row above; the first row always is.\<close>

definition ne_shift :: "bool list \<Rightarrow> bool list" where
  "ne_shift m = map (\<lambda>(b, p). Some b \<noteq> p) (zip m (shift_down m))"

text \<open>\<^verbatim>\<open>changes.cumsum()\<close> over booleans, started at \<open>acc\<close>.\<close>

fun cumsum_from :: "nat \<Rightarrow> bool list \<Rightarrow> nat list" where
  "cumsum_from acc [] = []"
| "cumsum_from acc (b # bs) =
     (let a = acc + (if b then 1 else 0) in a # cumsum_from a bs)"

text \<open>\<^verbatim>\<open>groups[is_null]\<close>: boolean-mask selection.\<close>

definition mask_select :: "'a list \<Rightarrow> bool list \<Rightarrow> 'a list" where
  "mask_select xs m = map fst (filter snd (zip xs m))"

text \<open>\<^verbatim>\<open>value_counts()\<close>: each distinct value with its number of occurrences.\<close>

definition value_counts :: "'a list \<Rightarrow> ('a \<times> nat) list" where
  "value_counts xs = map (\<lambda>v. (v, count_list xs v)) (remdups xs)"

definition max_nat_list :: "nat list \<Rightarrow> nat" where
  "max_nat_list ns = fold max ns 0"

definition check_consecutive_nans_optimized :: "series \<Rightarrow> int option \<Rightarrow> int" where
  "check_consecutive_nans_optimized series threshold_arg =
     (let threshold = (case threshold_arg of None \<Rightarrow> DEFAULT_GAP_THRESHOLD | Some t \<Rightarrow> t);
          is_null = map is_null_cell series
      in if \<not> list_ex id is_null then 0
         else
           let null_count = int (length (filter id is_null))
           in if null_count < threshold then null_count
              else
                let changes = ne_shift is_null;
                    groups = cumsum_from 0 changes;
                    null_groups = mask_select groups is_null
                in if null_groups = [] then 0
                   else int (max_nat_list (map snd (value_counts null_groups))))"

text \<open>
  The claim's words, for comparison with the code: a run of \<open>n\<close> consecutive nulls
  starts at row \<open>i\<close>; the longest run is the greatest such \<open>n\<close>.
\<close>

definition has_null_run :: "bool list \<Rightarrow> nat \<Rightarrow> bool" where
  "has_null_run m n = (\<exists>i\<le>length m. i + n \<le> length m \<and> (\<forall>j<n. m ! (i + j)))"

definition is_longest_null_run :: "bool list \<Rightarrow> nat \<Rightarrow> bool" where
  "is_longest_null_run m n = (has_null_run m n \<and> (\<forall>k\<le>length m. has_null_run m k \<longrightarrow> k \<le> n))"

fun longest_run :: "bool list \<Rightarrow> nat" where
  "longest_run [] = 0"
| "longest_run (b # bs) =
     (if b then max (Suc (length (takeWhile id bs))) (longest_run bs) else longest_run bs)"

text \<open>
  Proof device: the group numbers that \<open>mask_select (cumsum_from acc (ne_shift m)) m\<close>
  keeps, computed in one pass with the previous mask value \<open>p\<close> carried along, and the
  largest number of occurrences of one value in a list.
\<close>

fun null_ids :: "bool option \<Rightarrow> nat \<Rightarrow> bool list \<Rightarrow> nat list" where
  "null_ids p acc [] = []"
| "null_ids p acc (b # bs) =
     (let a = acc + (if Some b \<noteq> p then 1 else 0)
      in (if b then [a] else []) @ null_ids (Some b) a bs)"

definition maxc :: "nat list \<Rightarrow> nat" where
  "maxc xs = Max (insert 0 (count_list xs ` set xs))"

section \<open>Tables\<close>

text \<open>
  A DataFrame: a row count and the columns in order, each a label with its values.
  Rows are addressed by position.  The row count is kept beside the columns because a
  table that has lost all its columns still has its rows.
\<close>

record table =
  nrows :: nat
  cols :: "(string \<times> series) list"

definition wf_table :: "table \<Rightarrow> bool" where
  "wf_table t = list_all (\<lambda>(c, vs). length vs = nrows t) (cols t)"

definition column_names :: "table \<Rightarrow> string list" where
  "column_names t = map fst (cols t)"

text \<open>\<^verbatim>\<open>DataFrame.empty\<close>: some axis has length 0.\<close>

definition empty_table :: "table \<Rightarrow> bool" where
  "empty_table t = (nrows t = 0 \<or> cols t = [])"

text \<open>\<^verbatim>\<open>reset_index(drop=True)\<close>: rows are already addressed by position.\<close>

definition reset_index :: "table \<Rightarrow> table" where
  "reset_index t = t"

text \<open>\<^verbatim>\<open>df.drop(columns=names)\<close>\<close>

definition drop_columns :: "table \<Rightarrow> string list \<Rightarrow> table" where
  "drop_columns t names = t\<lparr>cols := filter (\<lambda>(c, vs). c \<notin> set names) (cols t)\<rparr>"

text \<open>
  \<^verbatim>\<open>pd.concat(dfs, axis=1)\<close> on tables with a RangeIndex: the default outer join keeps
  the union of the row labels, so the result has as many rows as the longest table and
  every shorter column is filled with missing values at the bottom.
\<close>

definition pad_to :: "nat \<Rightarrow> series \<Rightarrow> series" where
  "pad_to n vs = vs @ replicate (n - length vs) Missing"

definition concat_axis1 :: "table list \<Rightarrow> table" where
  "concat_axis1 dfs =
     (let n = max_nat_list (map nrows dfs)
      in \<lparr>nrows = n,
          cols = concat (map (\<lambda>t. map (\<lambda>(c, vs). (c, pad_to n vs)) (cols t)) dfs)\<rparr>)"

text \<open>\<^verbatim>\<open>Series.shift(-k)\<close> for \<open>k \<ge> 0\<close>: values move \<open>k\<close> rows up, the last rows are missing.\<close>

definition shift_up :: "nat \<Rightarrow> series \<Rightarrow> series" where
  "shift_up k vs = drop k vs @ replicate (min k (length vs)) Missing"

text \<open>\<^verbatim>\<open>df.iloc[:n]\<close>\<close>

definition head_rows :: "nat \<Rightarrow> table \<Rightarrow> table" where
  "head_rows n t = \<lparr>nrows = min n (nrows t), cols = map (\<lambda>(c, vs). (c, take n vs)) (cols t)\<rparr>"

text \<open>\<^verbatim>\<open>str.lower()\<close> on the code points below 256: the letters A to Z and the
  accented capitals 0xC0 to 0xDE (the multiplication sign 0xD7 apart) move up by 32.\<close>

definition lower_char :: "char \<Rightarrow> char" where
  "lower_char c =
     (let n = (of_char c :: nat)
      in if (65 \<le> n \<and> n \<le> 90) \<or> (192 \<le> n \<and> n \<le> 222 \<and> n \<noteq> 215)
         then char_of (n + 32) else c)"

definition lower :: "string \<Rightarrow> string" where
  "lower s = map lower_char s"

text \<open>The regular expression class \<^verbatim>\<open>\s\<close> of Python on the code points below 256: tab,
  line feed, vertical tab, form feed, carriage return (9 to 13), the four separators
  0x1C to 0x1F, space, next line (0x85) and no-break space (0xA0).\<close>

definition is_space :: "char \<Rightarrow> bool" where
  "is_space c =
     (let n = (of_char c :: nat)
      in (9 \<le> n \<and> n \<le> 13) \<or> (28 \<le> n \<and> n \<le> 32) \<or> n = 133 \<or> n = 160)"

section \<open>merger.py: DataMerger\<close>

definition TIME_KEYWORDS :: "string list" where
  "TIME_KEYWORDS = [''secs'', ''seconds'', ''time'', ''timestamp'', ''timer.s'']"

text \<open>
  What the merger tells the user interface, one constructor per call of
  \<^verbatim>\<open>print_message\<close>, \<^verbatim>\<open>print_success\<close>, \<^verbatim>\<open>print_warning\<close>, \<^verbatim>\<open>print_error\<close> and
  \<^verbatim>\<open>print_separator\<close>, with the values the message text is formatted from.
\<close>

datatype ui_message =
    MsgMergeHeader
  | MsgSeparator
  | MsgIgnoredColumns string "string list"
  | WarnNoNewColumns string
  | SuccessPrepared string
  | MsgAddedColumns "string list"
  | ErrMerge string string
  | MsgBatchConcat nat
  | SuccessMerged nat
  | MsgHeadHeader
  | MsgTailHeader
  | WarnNoCompleteRow
  | SuccessFirstRowComplete
  | WarnIncompleteHead nat
  | MsgLeftUnchanged
  | MsgTimeColumns "string list"
  | MsgDataColumns nat nat
  | SuccessShifted
  | SuccessTailComplete
  | WarnTailTrim nat
  | MsgTailLengths nat nat
  | SuccessTailTrimmed nat nat

text \<open>\<^verbatim>\<open>Path.name\<close>: the part after the last separator.\<close>

definition path_name :: "string \<Rightarrow> string" where
  "path_name p = rev (takeWhile (\<lambda>c. c \<noteq> CHR ''/'') (rev p))"

text \<open>The state of the loop over \<^verbatim>\<open>clean_files\<close> in \<^verbatim>\<open>merge_files\<close>.\<close>

record merge_acc =
  all_dfs :: "table list"
  seen_columns :: "string set"
  ui_log :: "ui_message list"

text \<open>
  One iteration of the loop.  \<open>read_csv\<close> is \<^verbatim>\<open>self.fs.read_csv\<close>; \<open>Inl e\<close> is an
  exception with text \<open>e\<close>, caught by the \<^verbatim>\<open>except\<close> clause, which only reports it.
\<close>

definition merge_one :: "(string \<Rightarrow> string + table) \<Rightarrow> merge_acc \<Rightarrow> string \<Rightarrow> merge_acc" where
  "merge_one read_csv st clean_path =
     (case read_csv clean_path of
        Inl e \<Rightarrow> st\<lparr>ui_log := ui_log st @ [ErrMerge clean_path e]\<rparr>
      | Inr df_new \<Rightarrow>
          let new_reset = reset_index df_new;
              duplicates = filter (\<lambda>col. col \<in> seen_columns st) (column_names new_reset);
              log1 = (if duplicates \<noteq> []
                      then ui_log st @ [MsgIgnoredColumns (path_name clean_path) duplicates]
                      else ui_log st);
              new_reset = (if duplicates \<noteq> [] then drop_columns new_reset duplicates
                           else new_reset)
          in if empty_table new_reset \<or> length (column_names new_reset) = 0
             then st\<lparr>ui_log := log1 @ [WarnNoNewColumns (path_name clean_path)]\<rparr>
             else \<lparr>all_dfs = all_dfs st @ [new_reset],
                   seen_columns = seen_columns st \<union> set (column_names new_reset),
                   ui_log = log1 @ [SuccessPrepared (path_name clean_path),
                                    MsgAddedColumns (column_names new_reset)]\<rparr>)"

definition merge_loop :: "(string \<Rightarrow> string + table) \<Rightarrow> table \<Rightarrow> string list \<Rightarrow> merge_acc" where
  "merge_loop read_csv base_df clean_files =
     foldl (merge_one read_csv)
       \<lparr>all_dfs = [reset_index base_df],
        seen_columns = set (column_names base_df),
        ui_log = [MsgMergeHeader, MsgSeparator]\<rparr>
       clean_files"

text \<open>The table \<^verbatim>\<open>df_merged\<close> right after the single \<^verbatim>\<open>pd.concat\<close>, before any trimming.\<close>

definition merge_concat :: "(string \<Rightarrow> string + table) \<Rightarrow> table \<Rightarrow> string list \<Rightarrow> table" where
  "merge_concat read_csv base_df clean_files =
     concat_axis1 (all_dfs (merge_loop read_csv base_df clean_files))"

text \<open>
  A row is complete when no cell is missing; in text columns a cell that matches
  \<^verbatim>\<open>^\s*$\<close> is replaced by a missing value first.
\<close>

definition cell_incomplete :: "cell \<Rightarrow> bool" where
  "cell_incomplete c = (case c of Missing \<Rightarrow> True | Num x \<Rightarrow> False | Str s \<Rightarrow> list_all is_space s)"

definition row_complete :: "table \<Rightarrow> nat \<Rightarrow> bool" where
  "row_complete df i = list_all (\<lambda>(c, vs). \<not> cell_incomplete (vs ! i)) (cols df)"

text \<open>\<^verbatim>\<open>np.where(complete_mask)[0]\<close>\<close>

definition complete_indices :: "table \<Rightarrow> nat list" where
  "complete_indices df = filter (row_complete df) [0..<nrows df]"

definition is_time_column :: "string \<Rightarrow> bool" where
  "is_time_column c = (lower c \<in> set TIME_KEYWORDS)"

text \<open>
  \<open>ask_yes_no\<close> is the answer of the user interface to the question whether to remove
  the given number of leading rows.
\<close>

definition validate_and_trim_head :: "(nat \<Rightarrow> bool) \<Rightarrow> table \<Rightarrow> table \<times> ui_message list" where
  "validate_and_trim_head ask_yes_no df =
     (let complete = complete_indices df
      in if length complete = 0 then (df, [MsgHeadHeader, WarnNoCompleteRow])
         else
           let first_valid_pos = hd complete
           in if first_valid_pos = 0 then (df, [MsgHeadHeader, SuccessFirstRowComplete])
              else if \<not> ask_yes_no first_valid_pos
              then (df, [MsgHeadHeader, WarnIncompleteHead first_valid_pos, MsgLeftUnchanged])
              else
                let time_cols = filter is_time_column (column_names df);
                    data_cols = filter (\<lambda>c. c \<notin> set time_cols) (column_names df);
                    df_new = df\<lparr>cols := map (\<lambda>(c, vs).
                                 if c \<in> set data_cols then (c, shift_up first_valid_pos vs)
                                 else (c, vs)) (cols df)\<rparr>
                in (df_new, [MsgHeadHeader, WarnIncompleteHead first_valid_pos,
                             MsgTimeColumns time_cols,
                             MsgDataColumns first_valid_pos (length data_cols),
                             SuccessShifted]))"

definition validate_and_trim_tail :: "table \<Rightarrow> table \<times> ui_message list" where
  "validate_and_trim_tail df =
     (let complete = complete_indices df;
          total_rows = nrows df
      in if length complete = 0 then (df, [MsgTailHeader, WarnNoCompleteRow])
         else
           let last_valid_pos = last complete;
               rows_to_keep = last_valid_pos + 1;
               to_remove = total_rows - rows_to_keep
           in if to_remove = 0 then (df, [MsgTailHeader, SuccessTailComplete])
              else
                let df_trimmed = head_rows rows_to_keep df
                in (df_trimmed, [MsgTailHeader, WarnTailTrim to_remove,
                                 MsgTailLengths total_rows last_valid_pos,
                                 SuccessTailTrimmed to_remove (nrows df_trimmed)]))"

definition merge_files ::
  "(string \<Rightarrow> string + table) \<Rightarrow> (nat \<Rightarrow> bool) \<Rightarrow> table \<Rightarrow> string list \<Rightarrow> bool \<Rightarrow> bool
     \<Rightarrow> table \<times> ui_message list" where
  "merge_files read_csv ask_yes_no base_df clean_files validate_head validate_tail =
     (let st = merge_loop read_csv base_df clean_files;
          df_merged = concat_axis1 (all_dfs st);
          log0 = ui_log st @ [MsgBatchConcat (length (all_dfs st)),
                              SuccessMerged (length (column_names df_merged))];
          (df_merged, log1) =
             (if validate_head
              then (let (d, l) = validate_and_trim_head ask_yes_no df_merged in (d, log0 @ l))
              else (df_merged, log0));
          (df_merged, log2) =
             (if validate_tail
              then (let (d, l) = validate_and_trim_tail df_merged in (d, log1 @ l))
              else (df_merged, log1))
      in (df_merged, log2))"

text \<open>
  A file system holding the given clean files, for \<^verbatim>\<open>fs.read_csv\<close>: a path that is
  not there raises.  \<open>silent_ask\<close> is \<^verbatim>\<open>SilentUI.ask_yes_no\<close>, which answers every
  question with its configured default.
\<close>

definition read_from :: "(string \<times> table) list \<Rightarrow> string \<Rightarrow> string + table" where
  "read_from files p =
     (case map_of files p of None \<Rightarrow> Inl ''FileNotFoundError'' | Some t \<Rightarrow> Inr t)"

definition silent_ask :: "bool \<Rightarrow> nat \<Rightarrow> bool" where
  "silent_ask default_yes_no n = default_yes_no"

text \<open>
  Proof devices for the loop of \<^verbatim>\<open>merge_files\<close>: what is left of a source after the
  columns already seen are dropped, the tables the loop appends for a list of files
  starting from a set of seen names, the column names a file offers, and the statement
  that no two tables of a list share a column name.
\<close>

definition new_columns :: "string set \<Rightarrow> table \<Rightarrow> table" where
  "new_columns seen t = t\<lparr>cols := filter (\<lambda>(c, vs). c \<notin> seen) (cols t)\<rparr>"

fun contributed :: "(string \<Rightarrow> string + table) \<Rightarrow> string set \<Rightarrow> string list \<Rightarrow> table list" where
  "contributed read_csv seen [] = []"
| "contributed read_csv seen (p # ps) =
     (case read_csv p of
        Inl e \<Rightarrow> contributed read_csv seen ps
      | Inr t \<Rightarrow>
          let k = new_columns seen t
          in if empty_table k then contributed read_csv seen ps
             else k # contributed read_csv (seen \<union> set (column_names k)) ps)"

definition source_columns :: "(string \<Rightarrow> string + table) \<Rightarrow> string \<Rightarrow> string list" where
  "source_columns read_csv p = (case read_csv p of Inl e \<Rightarrow> [] | Inr t \<Rightarrow> column_names t)"

fun names_disjoint :: "table list \<Rightarrow> bool" where
  "names_disjoint [] = True"
| "names_disjoint (t # ts) =
     (list_all (\<lambda>u. list_all (\<lambda>c. c \<notin> set (column_names t)) (column_names u)) ts
      \<and> names_disjoint ts)"

text \<open>The columns of a table that carry a given name.\<close>

definition columns_named :: "string \<Rightarrow> table \<Rightarrow> (string \<times> series) list" where
  "columns_named c t = filter (\<lambda>p. fst p = c) (cols t)"

text \<open>The columns of a table as \<open>concat_axis1\<close> lays them out in a result of \<open>n\<close> rows.\<close>

definition pad_cols :: "nat \<Rightarrow> table \<Rightarrow> (string \<times> series) list" where
  "pad_cols n t = map (\<lambda>(c, vs). (c, pad_to n vs)) (cols t)"

section \<open>validators/integrity.py: IntegrityValidator\<close>

record validator =
  gap_threshold :: int
  fail_fast :: bool
  strict_mode :: bool

text \<open>\<^verbatim>\<open>IntegrityValidator.__init__\<close>\<close>

definition new_validator :: "int option \<Rightarrow> bool \<Rightarrow> bool \<Rightarrow> validator" where
  "new_validator gap_threshold_arg ff sm =
     \<lparr>gap_threshold = (case gap_threshold_arg of None \<Rightarrow> DEFAULT_GAP_THRESHOLD | Some t \<Rightarrow> t),
      fail_fast = ff, strict_mode = sm\<rparr>"

text \<open>
  The issue strings the validator returns, by the values they are formatted from:
  the column and the run length for a gap; the column and the count for negative time
  values; the column, the count and the first row for decreasing time values; the
  column and the count for duplicated time values.
\<close>

datatype issue =
    GapIssue string int
  | NegativeTimes string nat
  | DecreasingTimes string nat nat
  | DuplicateTimes string nat

primrec issue_column :: "issue \<Rightarrow> string" where
  "issue_column (GapIssue c g) = c"
| "issue_column (NegativeTimes c n) = c"
| "issue_column (DecreasingTimes c n i) = c"
| "issue_column (DuplicateTimes c n) = c"

text \<open>The exceptions of \<^verbatim>\<open>exceptions.py\<close> that these checks raise, with their fields.\<close>

datatype ts_details = NegativeCount nat | DecreaseAtRow nat

datatype validation_error =
    TimestampError string string "string option" ts_details
  | DataGapError string int int "string option"

text \<open>
  \<^verbatim>\<open>validate\<close>: one pass over the columns (labels are unique, so \<^verbatim>\<open>df[col]\<close> is the
  column at that position).
\<close>

definition validate :: "validator \<Rightarrow> table \<Rightarrow> string \<Rightarrow> issue list" where
  "validate self df source_name =
     concat (map (\<lambda>(col, vs).
        let max_gap = check_consecutive_nans_optimized vs (Some (gap_threshold self))
        in if max_gap \<ge> gap_threshold self then [GapIssue col max_gap] else [])
       (cols df))"

text \<open>\<^verbatim>\<open>validate_data_gaps\<close>: the loop over \<^verbatim>\<open>cols_to_check\<close> with the warnings so far.\<close>

fun data_gaps_loop ::
  "validator \<Rightarrow> table \<Rightarrow> string option \<Rightarrow> string list \<Rightarrow> issue list
     \<Rightarrow> validation_error + issue list" where
  "data_gaps_loop self df file_path [] warnings = Inr warnings"
| "data_gaps_loop self df file_path (col # rest) warnings =
     (case map_of (cols df) col of
        None \<Rightarrow> data_gaps_loop self df file_path rest warnings
      | Some vs \<Rightarrow>
          let max_gap = check_consecutive_nans_optimized vs (Some (gap_threshold self))
          in if max_gap \<ge> gap_threshold self
             then if fail_fast self
                  then Inl (DataGapError col max_gap (gap_threshold self) file_path)
                  else data_gaps_loop self df file_path rest (warnings @ [GapIssue col max_gap])
             else data_gaps_loop self df file_path rest warnings)"

definition validate_data_gaps ::
  "validator \<Rightarrow> table \<Rightarrow> string list option \<Rightarrow> string option
     \<Rightarrow> validation_error + issue list" where
  "validate_data_gaps self df columns file_path =
     (let cols_to_check = (case columns of None \<Rightarrow> column_names df
                           | Some cs \<Rightarrow> if cs = [] then column_names df else cs)
      in data_gaps_loop self df file_path cols_to_check [])"

text \<open>
  \<^verbatim>\<open>pd.to_numeric(series, errors="coerce")\<close>: numbers stay, missing values stay missing,
  and a text cell becomes the number it spells or a missing value.  The number parser of
  pandas is the parameter \<open>parse\<close>.
\<close>

definition to_numeric :: "(string \<Rightarrow> real option) \<Rightarrow> series \<Rightarrow> real option list" where
  "to_numeric parse vs =
     map (\<lambda>c. case c of Missing \<Rightarrow> None | Num x \<Rightarrow> Some x | Str s \<Rightarrow> parse s) vs"

text \<open>\<^verbatim>\<open>Series.diff()\<close>: each value minus the one above; missing in the first row and
  wherever one of the two is missing.\<close>

definition sub_opt :: "real option \<Rightarrow> real option \<Rightarrow> real option" where
  "sub_opt a b = (case (a, b) of (Some x, Some y) \<Rightarrow> Some (x - y) | _ \<Rightarrow> None)"

definition diff :: "real option list \<Rightarrow> real option list" where
  "diff xs = (case xs of [] \<Rightarrow> [] | x # rest \<Rightarrow> None # map (\<lambda>(cur, prev). sub_opt cur prev) (zip rest xs))"

text \<open>\<^verbatim>\<open>(s < 0)\<close>: a comparison with a missing value is false.\<close>

definition lt_zero :: "real option \<Rightarrow> bool" where
  "lt_zero v = (case v of None \<Rightarrow> False | Some x \<Rightarrow> x < 0)"

text \<open>\<^verbatim>\<open>Series.duplicated()\<close>: a row is marked when its value occurred in a row above
  (missing values count as equal to each other).\<close>

fun duplicated_from :: "'a list \<Rightarrow> 'a list \<Rightarrow> bool list" where
  "duplicated_from seen [] = []"
| "duplicated_from seen (x # xs) = (x \<in> set seen) # duplicated_from (x # seen) xs"

definition duplicated :: "'a list \<Rightarrow> bool list" where
  "duplicated xs = duplicated_from [] xs"

text \<open>\<^verbatim>\<open>mask.sum()\<close> and the position of the first marked row.\<close>

definition count_true :: "bool list \<Rightarrow> nat" where
  "count_true m = length (filter id m)"

definition first_true :: "bool list \<Rightarrow> nat" where
  "first_true m = length (takeWhile (\<lambda>b. \<not> b) m)"

definition validate_timestamps ::
  "(string \<Rightarrow> real option) \<Rightarrow> validator \<Rightarrow> table \<Rightarrow> string \<Rightarrow> string option
     \<Rightarrow> bool \<Rightarrow> bool \<Rightarrow> bool \<Rightarrow> validation_error + issue list" where
  "validate_timestamps parse self df time_column file_path
       check_monotonic check_duplicates check_negative =
     (case map_of (cols df) time_column of
        None \<Rightarrow> Inr []
      | Some column \<Rightarrow>
          let time_series = to_numeric parse column;
              negative_count = count_true (map lt_zero time_series)
          in if check_negative \<and> negative_count > 0 \<and> fail_fast self
             then Inl (TimestampError ''negative'' time_column file_path
                         (NegativeCount negative_count))
             else
               let warnings = (if check_negative \<and> negative_count > 0
                               then [NegativeTimes time_column negative_count] else []);
                   decreasing = map lt_zero (diff time_series);
                   decreasing_count = count_true decreasing;
                   first_decrease_idx = first_true decreasing
               in if check_monotonic \<and> decreasing_count > 0 \<and> fail_fast self
                  then Inl (TimestampError ''non_monotonic'' time_column file_path
                              (DecreaseAtRow first_decrease_idx))
                  else
                    let warnings = (if check_monotonic \<and> decreasing_count > 0
                                    then warnings @ [DecreasingTimes time_column decreasing_count
                                                       first_decrease_idx]
                                    else warnings);
                        duplicate_count = count_true (duplicated time_series);
                        warnings = (if check_duplicates \<and> duplicate_count > 0
                                    then warnings @ [DuplicateTimes time_column duplicate_count]
                                    else warnings)
                    in Inr warnings)"

section \<open>interpolation.py\<close>

datatype py_error = ValueError string | TypeError | IntCastingNaNError

datatype interp_method = MethodNone | Linear | Ffill | Bfill | Pad

text \<open>\<^verbatim>\<open>select_dtypes(include=[np.number])\<close>: a column of numbers and missing values.\<close>

definition numeric_column :: "series \<Rightarrow> bool" where
  "numeric_column vs = list_all (\<lambda>c. case c of Str s \<Rightarrow> False | _ \<Rightarrow> True) vs"

definition count_na :: "series \<Rightarrow> nat" where
  "count_na vs = length (filter isna vs)"

subsection \<open>The pandas fills\<close>

text \<open>
  \<^verbatim>\<open>ffill(limit)\<close>, \<^verbatim>\<open>bfill(limit)\<close> and \<^verbatim>\<open>interpolate(method='linear', limit)\<close> as pandas
  documents them.  A forward fill carries the last value seen into the missing cells
  that follow it, at most \<open>limit\<close> cells per run; a missing cell with no value before it
  stays missing.  The backward fill is its mirror image.  Linear interpolation (forward,
  the default direction) fills the same cells as the forward fill: with the value on the
  straight line between the neighbours when a value follows, with the last value when none
  does.  \<open>prev\<close> is the last value seen (\<open>Missing\<close> when none), \<open>k\<close> the number of missing
  cells since.
\<close>

definition within_limit :: "nat option \<Rightarrow> nat \<Rightarrow> bool" where
  "within_limit limit n = (case limit of None \<Rightarrow> True | Some l \<Rightarrow> n \<le> l)"

fun ffill_from :: "nat option \<Rightarrow> cell \<Rightarrow> nat \<Rightarrow> series \<Rightarrow> series" where
  "ffill_from limit prev k [] = []"
| "ffill_from limit prev k (Missing # xs) =
     (if prev \<noteq> Missing \<and> within_limit limit (Suc k) then prev else Missing)
       # ffill_from limit prev (Suc k) xs"
| "ffill_from limit prev k (c # xs) = c # ffill_from limit c 0 xs"

definition pd_ffill :: "nat option \<Rightarrow> series \<Rightarrow> series" where
  "pd_ffill limit vs = ffill_from limit Missing 0 vs"

definition pd_bfill :: "nat option \<Rightarrow> series \<Rightarrow> series" where
  "pd_bfill limit vs = rev (pd_ffill limit (rev vs))"

text \<open>The next value after a run of missing cells, with the number of cells before it.\<close>

fun next_valid :: "series \<Rightarrow> (nat \<times> cell) option" where
  "next_valid [] = None"
| "next_valid (Missing # xs) = map_option (\<lambda>(d, v). (Suc d, v)) (next_valid xs)"
| "next_valid (c # xs) = Some (0, c)"

text \<open>The point \<open>i\<close> steps along the line of \<open>n\<close> steps from \<open>a\<close> to \<open>b\<close>.\<close>

fun lerp :: "cell \<Rightarrow> cell \<Rightarrow> nat \<Rightarrow> nat \<Rightarrow> cell" where
  "lerp (Num a) (Num b) i n = Num (a + (b - a) * real i / real n)"
| "lerp a b i n = a"

fun linear_from :: "nat option \<Rightarrow> cell \<Rightarrow> nat \<Rightarrow> series \<Rightarrow> series" where
  "linear_from limit prev k [] = []"
| "linear_from limit prev k (Missing # xs) =
     (if prev \<noteq> Missing \<and> within_limit limit (Suc k)
      then (case next_valid xs of
              None \<Rightarrow> prev
            | Some (d, v) \<Rightarrow> lerp prev v (Suc k) (Suc k + Suc d))
      else Missing)
       # linear_from limit prev (Suc k) xs"
| "linear_from limit prev k (c # xs) = c # linear_from limit c 0 xs"

text \<open>Linear interpolation needs a numeric dtype; \<open>numeric\<close> is the dtype of the column the
  values come from.\<close>

definition pd_interpolate_linear :: "bool \<Rightarrow> nat option \<Rightarrow> series \<Rightarrow> py_error + series" where
  "pd_interpolate_linear numeric limit vs =
     (if \<not> numeric then Inl TypeError else Inr (linear_from limit Missing 0 vs))"

subsection \<open>Runs of missing values\<close>

text \<open>\<^verbatim>\<open>(mask != mask.shift()).cumsum()\<close>\<close>

definition group_ids :: "bool list \<Rightarrow> nat list" where
  "group_ids msk = cumsum_from 0 (ne_shift msk)"

text \<open>\<^verbatim>\<open>mask.groupby(groups)\<close>: the keys in ascending order, each with the positions of
  its rows.\<close>

definition groupby_positions :: "nat list \<Rightarrow> (nat \<times> nat list) list" where
  "groupby_positions ids =
     map (\<lambda>k. (k, filter (\<lambda>i. ids ! i = k) [0..<length ids])) (sort (remdups ids))"

definition get_consecutive_lengths :: "bool list \<Rightarrow> nat list" where
  "get_consecutive_lengths msk =
     (if \<not> list_ex id msk then []
      else map (\<lambda>(k, pos). length pos)
             (filter (\<lambda>(k, pos). msk ! hd pos) (groupby_positions (group_ids msk))))"

text \<open>
  \<^verbatim>\<open>result.loc[start_idx:end_idx] = result.loc[start_idx:end_idx].<fill>()\<close>: the slice
  holds the rows \<open>start_idx\<close> to \<open>end_idx\<close>, both included, and nothing else.
\<close>

definition fill_slice :: "interp_method \<Rightarrow> bool \<Rightarrow> series \<Rightarrow> nat \<Rightarrow> nat \<Rightarrow> py_error + series" where
  "fill_slice method numeric result start_idx end_idx =
     (let seg = take (Suc end_idx - start_idx) (drop start_idx result);
          put = (\<lambda>filled. take start_idx result @ filled @ drop (Suc end_idx) result)
      in case method of
           Linear \<Rightarrow> (case pd_interpolate_linear numeric None seg of
                        Inl e \<Rightarrow> Inl e | Inr filled \<Rightarrow> Inr (put filled))
         | Ffill \<Rightarrow> Inr (put (pd_ffill None seg))
         | Pad \<Rightarrow> Inr (put (pd_ffill None seg))
         | Bfill \<Rightarrow> Inr (put (pd_bfill None seg))
         | MethodNone \<Rightarrow> Inr result)"

fun small_gaps_loop ::
  "interp_method \<Rightarrow> int \<Rightarrow> bool \<Rightarrow> bool list \<Rightarrow> (nat \<times> nat list) list \<Rightarrow> series
     \<Rightarrow> py_error + series" where
  "small_gaps_loop method max_gap numeric nan_mask [] result = Inr result"
| "small_gaps_loop method max_gap numeric nan_mask ((group_id, pos) # rest) result =
     (if \<not> nan_mask ! hd pos then small_gaps_loop method max_gap numeric nan_mask rest result
      else
        let gap_length = length pos
        in if int gap_length \<le> max_gap
           then (case fill_slice method numeric result (hd pos) (last pos) of
                   Inl e \<Rightarrow> Inl e
                 | Inr result' \<Rightarrow> small_gaps_loop method max_gap numeric nan_mask rest result')
           else small_gaps_loop method max_gap numeric nan_mask rest result)"

definition interpolate_small_gaps :: "series \<Rightarrow> int \<Rightarrow> interp_method \<Rightarrow> py_error + series" where
  "interpolate_small_gaps series max_gap method =
     (let result = series;
          nan_mask = map isna series
      in if \<not> list_ex id nan_mask then Inr result
         else small_gaps_loop method max_gap (numeric_column series) nan_mask
                (groupby_positions (group_ids nan_mask)) result)"

subsection \<open>interpolate\_time\_gaps\<close>

text \<open>pandas refuses a fill limit that is not positive.\<close>

definition check_limit :: "int \<Rightarrow> py_error + nat option" where
  "check_limit max_gap =
     (if max_gap \<le> 0 then Inl (ValueError ''Limit must be greater than 0'')
      else Inr (Some (nat max_gap)))"

text \<open>The body of the loop for a column that has missing values: its new values.\<close>

definition interpolate_column :: "interp_method \<Rightarrow> int \<Rightarrow> series \<Rightarrow> py_error + series" where
  "interpolate_column method max_gap vs =
     (let nan_mask = map isna vs;
          gap_lengths = get_consecutive_lengths nan_mask
      in if (if gap_lengths \<noteq> [] then int (max_nat_list gap_lengths) \<le> max_gap else True)
         then (case method of
                 Linear \<Rightarrow> (case check_limit max_gap of
                              Inl e \<Rightarrow> Inl e
                            | Inr limit \<Rightarrow> pd_interpolate_linear (numeric_column vs) limit vs)
               | Ffill \<Rightarrow> (case check_limit max_gap of
                              Inl e \<Rightarrow> Inl e | Inr limit \<Rightarrow> Inr (pd_ffill limit vs))
               | Pad \<Rightarrow> (case check_limit max_gap of
                              Inl e \<Rightarrow> Inl e | Inr limit \<Rightarrow> Inr (pd_ffill limit vs))
               | Bfill \<Rightarrow> (case check_limit max_gap of
                              Inl e \<Rightarrow> Inl e | Inr limit \<Rightarrow> Inr (pd_bfill limit vs))
               | MethodNone \<Rightarrow> Inr vs)
         else interpolate_small_gaps vs max_gap method)"

text \<open>\<^verbatim>\<open>df[col] = values\<close> for a column that exists.\<close>

definition set_column :: "table \<Rightarrow> string \<Rightarrow> series \<Rightarrow> table" where
  "set_column df col vs = df\<lparr>cols := map (\<lambda>(c, v). if c = col then (c, vs) else (c, v)) (cols df)\<rparr>"

fun interp_loop ::
  "interp_method \<Rightarrow> int \<Rightarrow> string list \<Rightarrow> table \<Rightarrow> int \<Rightarrow> py_error + table \<times> int" where
  "interp_loop method max_gap [] df_copy total_filled = Inr (df_copy, total_filled)"
| "interp_loop method max_gap (col # rest) df_copy total_filled =
     (case map_of (cols df_copy) col of
        None \<Rightarrow> interp_loop method max_gap rest df_copy total_filled
      | Some vs \<Rightarrow>
          let nan_before = count_na vs
          in if nan_before = 0 then interp_loop method max_gap rest df_copy total_filled
             else (case interpolate_column method max_gap vs of
                     Inl e \<Rightarrow> Inl e
                   | Inr vs' \<Rightarrow>
                       let nan_after = count_na vs'
                       in interp_loop method max_gap rest (set_column df_copy col vs')
                            (total_filled + (int nan_before - int nan_after))))"

definition interpolate_time_gaps ::
  "table \<Rightarrow> string \<Rightarrow> interp_method \<Rightarrow> int \<Rightarrow> string list option \<Rightarrow> py_error + table \<times> int" where
  "interpolate_time_gaps df time_col method max_gap columns_arg =
     (if method = MethodNone then Inr (df, 0)
      else
        let columns = (case columns_arg of
                         None \<Rightarrow> filter (\<lambda>c. c \<noteq> time_col)
                                   (map fst (filter (\<lambda>(c, vs). numeric_column vs) (cols df)))
                       | Some cs \<Rightarrow> cs)
        in interp_loop method max_gap columns df 0)"

text \<open>
  Proof devices for the run-length encoding: the group numbers of a mask whose
  predecessor value is \<open>p\<close> and whose counter stands at \<open>acc\<close>; and the values
  \<^verbatim>\<open>interpolate_time_gaps\<close> leaves in a numeric column, written without the encoding.
\<close>

definition ids_from :: "bool option \<Rightarrow> nat \<Rightarrow> bool list \<Rightarrow> nat list" where
  "ids_from p acc bs = cumsum_from acc (map (\<lambda>(b, q). Some b \<noteq> q) (zip bs (p # map Some bs)))"

definition filled_column :: "interp_method \<Rightarrow> int \<Rightarrow> series \<Rightarrow> series" where
  "filled_column method max_gap vs =
     (if count_na vs = 0 then vs
      else if int (longest_run (map isna vs)) \<le> max_gap
      then (case method of
              Linear \<Rightarrow> linear_from (Some (nat max_gap)) Missing 0 vs
            | Ffill \<Rightarrow> pd_ffill (Some (nat max_gap)) vs
            | Pad \<Rightarrow> pd_ffill (Some (nat max_gap)) vs
            | Bfill \<Rightarrow> pd_bfill (Some (nat max_gap)) vs
            | MethodNone \<Rightarrow> vs)
      else vs)"

subsection \<open>detect\_sampling\_rate and resample\_to\_frequency\<close>

text \<open>The numbers of a numeric column, a missing value as \<open>None\<close>.\<close>

definition cell_values :: "series \<Rightarrow> real option list" where
  "cell_values vs = map (\<lambda>c. case c of Num x \<Rightarrow> Some x | _ \<Rightarrow> None) vs"

text \<open>\<^verbatim>\<open>dropna()\<close>\<close>

definition dropna :: "real option list \<Rightarrow> real list" where
  "dropna xs = concat (map (\<lambda>x. case x of None \<Rightarrow> [] | Some v \<Rightarrow> [v]) xs)"

text \<open>The median of a non-empty list: the middle value of the sorted list, or the mean
  of the two middle values.\<close>

definition median :: "real list \<Rightarrow> real" where
  "median xs =
     (let s = sort xs; n = length s
      in if n mod 2 = 1 then s ! (n div 2) else (s ! (n div 2 - 1) + s ! (n div 2)) / 2)"

text \<open>\<^verbatim>\<open>Series.median()\<close>: missing values are skipped; the median of nothing is missing.\<close>

definition pd_median :: "real option list \<Rightarrow> real option" where
  "pd_median xs = (let vs = dropna xs in if vs = [] then None else Some (median vs))"

text \<open>
  \<^verbatim>\<open>detect_sampling_rate\<close>.  Subtracting the cells of a text column raises
  \<^verbatim>\<open>TypeError\<close>.
\<close>

definition detect_sampling_rate :: "table \<Rightarrow> string \<Rightarrow> py_error + real" where
  "detect_sampling_rate df time_col =
     (case map_of (cols df) time_col of
        None \<Rightarrow> Inr 1
      | Some tvs \<Rightarrow>
          if nrows df < 2 then Inr 1
          else if \<not> numeric_column tvs then Inl TypeError
          else
            let time_diff = dropna (diff (cell_values tvs))
            in if length time_diff = 0 then Inr 1
               else
                 let median_diff = median time_diff
                 in if median_diff \<le> 0 then Inr 1 else Inr (1 / median_diff))"

datatype agg_method = Mean | First | Last | Median

text \<open>Python's \<^verbatim>\<open>round\<close>: halves go to the even neighbour.\<close>

definition py_round :: "real \<Rightarrow> int" where
  "py_round x =
     (let f = \<lfloor>x\<rfloor>; r = x - of_int f
      in if r < 1 / 2 then f else if r > 1 / 2 then f + 1 else if even f then f else f + 1)"

text \<open>\<^verbatim>\<open>df[name] = values\<close>: replace the column in place, or append a new one.\<close>

definition assign_column :: "table \<Rightarrow> string \<Rightarrow> series \<Rightarrow> table" where
  "assign_column df name vs =
     (if name \<in> set (column_names df) then set_column df name vs
      else df\<lparr>cols := cols df @ [(name, vs)]\<rparr>)"

text \<open>\<^verbatim>\<open>df.rename(columns={old: new})\<close>\<close>

definition rename_column :: "table \<Rightarrow> string \<Rightarrow> string \<Rightarrow> table" where
  "rename_column df old new =
     df\<lparr>cols := map (\<lambda>(c, vs). if c = old then (new, vs) else (c, vs)) (cols df)\<rparr>"

definition time_column_missing :: "string \<Rightarrow> py_error" where
  "time_column_missing time_col =
     ValueError (''Time column '' @ [CHR 0x27] @ time_col @ [CHR 0x27] @ '' not found in DataFrame'')"

text \<open>
  \<^verbatim>\<open>resample_to_frequency\<close>.  Two computations of pandas, whose results depend on the
  dtype of the columns and on the version of the library, are parameters:
  \<open>pd_bucket\<close> is \<^verbatim>\<open>(df[time_col] * target_freq).astype(int)\<close>, the bucket key of every row
  or the exception of the cast; \<open>pd_groupby_agg\<close> is
  \<^verbatim>\<open>df.groupby(key).agg(agg_dict).reset_index()\<close>, the aggregated table or its exception.
  The function itself checks the time column, finds the current frequency, builds the
  aggregation dictionary (the chosen aggregation for numeric columns, \<^verbatim>\<open>first\<close> for the
  others) and renames the key.
\<close>

definition resample_to_frequency ::
  "(series \<Rightarrow> int \<Rightarrow> py_error + series)
     \<Rightarrow> (table \<Rightarrow> string \<Rightarrow> (string \<times> agg_method) list \<Rightarrow> py_error + table)
     \<Rightarrow> table \<Rightarrow> string \<Rightarrow> int \<Rightarrow> int option \<Rightarrow> agg_method \<Rightarrow> py_error + table" where
  "resample_to_frequency pd_bucket pd_groupby_agg df time_col target_freq current_freq_arg how =
     (case map_of (cols df) time_col of
        None \<Rightarrow> Inl (time_column_missing time_col)
      | Some tvs \<Rightarrow>
          if current_freq_arg = None \<and> \<not> numeric_column tvs then Inl TypeError
          else
            let current_freq =
                  (case current_freq_arg of
                     Some f \<Rightarrow> f
                   | None \<Rightarrow>
                       (case pd_median (diff (cell_values tvs)) of
                          None \<Rightarrow> 1
                        | Some time_diff \<Rightarrow>
                            if time_diff > 0 then py_round (1 / time_diff) else 1))
            in if current_freq = target_freq then Inr df
               else
                 (case pd_bucket tvs target_freq of
                    Inl e \<Rightarrow> Inl e
                  | Inr second \<Rightarrow>
                      let df_copy = assign_column df ''_second'' second;
                          numeric_cols = filter (\<lambda>c. c \<notin> set [time_col, ''_second''])
                             (map fst (filter (\<lambda>(c, vs). numeric_column vs) (cols df_copy)));
                          non_numeric_cols = filter
                             (\<lambda>c. c \<notin> set (numeric_cols @ [time_col, ''_second'']))
                             (column_names df_copy);
                          agg_dict = map (\<lambda>c. (c, how)) numeric_cols
                                     @ map (\<lambda>c. (c, First)) non_numeric_cols
                      in (case pd_groupby_agg df_copy ''_second'' agg_dict of
                            Inl e \<Rightarrow> Inl e
                          | Inr result \<Rightarrow> Inr (rename_column result ''_second'' time_col))))"

section \<open>Gap-length algorithm: the run-length encoding finds the longest run\<close>

lemma zip_take_right: "length xs \<le> n \<Longrightarrow> zip xs (take n ys) = zip xs ys"
proof (induction xs arbitrary: n ys)
  case Nil then show ?case by simp
next
  case (Cons a xs)
  then obtain k where n: "n = Suc k" by (cases n) auto
  show ?case using Cons n by (cases ys) auto
qed

lemma ne_shift_zip: "ne_shift m = map (\<lambda>(b, p). Some b \<noteq> p) (zip m (None # map Some m))"
  unfolding ne_shift_def shift_down_def by (simp add: zip_take_right)

lemma null_ids_link:
  "mask_select (cumsum_from acc (map (\<lambda>(b, q). Some b \<noteq> q) (zip bs (p # map Some bs)))) bs
     = null_ids p acc bs"
  by (induction bs arbitrary: p acc) (auto simp: mask_select_def Let_def)

lemma null_ids_lower:
  "x \<in> set (null_ids p acc bs) \<Longrightarrow> (if p = Some True then acc \<le> x else acc < x)"
proof (induction bs arbitrary: p acc)
  case Nil then show ?case by simp
next
  case (Cons b bs)
  show ?case
  proof (cases b)
    case True
    with Cons.prems have "x = acc + (if Some True \<noteq> p then 1 else 0) \<or>
       x \<in> set (null_ids (Some True) (acc + (if Some True \<noteq> p then 1 else 0)) bs)"
      by (auto simp: Let_def)
    then show ?thesis using Cons.IH[of "Some True" "acc + (if Some True \<noteq> p then 1 else 0)"]
      by (auto split: if_splits)
  next
    case False
    with Cons.prems have "x \<in> set (null_ids (Some False) (acc + (if Some False \<noteq> p then 1 else 0)) bs)"
      by (auto simp: Let_def)
    then show ?thesis using Cons.IH[of "Some False" "acc + (if Some False \<noteq> p then 1 else 0)"]
      by (auto split: if_splits)
  qed
qed

lemma null_ids_count_lead:
  "count_list (null_ids (Some True) a bs) a = length (takeWhile id bs)"
proof (induction bs)
  case Nil then show ?case by simp
next
  case (Cons b bs)
  show ?case
  proof (cases b)
    case True then show ?thesis using Cons by (simp add: Let_def)
  next
    case False
    have "a \<notin> set (null_ids (Some False) (Suc a) bs)"
      using null_ids_lower[of a "Some False" "Suc a" bs] by auto
    then show ?thesis using False by (simp add: Let_def count_list_0_iff)
  qed
qed

lemma maxc_ge: "y \<in> set xs \<Longrightarrow> count_list xs y \<le> maxc xs"
  unfolding maxc_def by (intro Max_ge) auto

lemma maxc_attained: "xs \<noteq> [] \<Longrightarrow> \<exists>y\<in>set xs. maxc xs = count_list xs y"
proof -
  assume ne: "xs \<noteq> []"
  have "maxc xs \<in> insert 0 (count_list xs ` set xs)"
    unfolding maxc_def by (intro Max_in) auto
  moreover have "0 < maxc xs"
  proof -
    obtain z where z: "z \<in> set xs" using ne by (cases xs) auto
    then have "0 < count_list xs z" using count_list_0_iff[of xs z] by auto
    then show ?thesis using maxc_ge[OF z] by linarith
  qed
  ultimately show ?thesis by auto
qed

lemma maxc_Cons: "maxc (a # xs) = max (Suc (count_list xs a)) (maxc xs)"
proof (rule antisym)
  have "\<exists>y\<in>set (a # xs). maxc (a # xs) = count_list (a # xs) y"
    by (rule maxc_attained) simp
  then obtain y where y: "y \<in> set (a # xs)" "maxc (a # xs) = count_list (a # xs) y"
    by blast
  show "maxc (a # xs) \<le> max (Suc (count_list xs a)) (maxc xs)"
  proof (cases "y = a")
    case True then show ?thesis using y by simp
  next
    case False
    then have "y \<in> set xs" using y by simp
    then show ?thesis using y False maxc_ge[of y xs] by simp
  qed
next
  have a: "Suc (count_list xs a) \<le> maxc (a # xs)"
    using maxc_ge[of a "a # xs"] by simp
  have b: "maxc xs \<le> maxc (a # xs)"
  proof (cases "xs = []")
    case True then show ?thesis by (simp add: maxc_def)
  next
    case False
    then obtain z where z: "z \<in> set xs" "maxc xs = count_list xs z"
      using maxc_attained by blast
    have "count_list xs z \<le> count_list (a # xs) z" by simp
    also have "\<dots> \<le> maxc (a # xs)" using z by (intro maxc_ge) simp
    finally show ?thesis using z by simp
  qed
  show "max (Suc (count_list xs a)) (maxc xs) \<le> maxc (a # xs)" using a b by simp
qed

lemma maxc_null_ids: "maxc (null_ids p acc bs) = longest_run bs"
proof (induction bs arbitrary: p acc)
  case Nil then show ?case by (simp add: maxc_def)
next
  case (Cons b bs)
  then show ?case by (auto simp: Let_def maxc_Cons null_ids_count_lead)
qed

lemma fold_max_Max: "fold max ns (a::nat) = Max (insert a (set ns))"
proof (induction ns arbitrary: a)
  case Nil then show ?case by simp
next
  case (Cons x ns)
  have "Max (insert (max x a) (set ns)) = Max (insert a (insert x (set ns)))"
  proof (cases "set ns = {}")
    case True then show ?thesis by (simp add: max.commute)
  next
    case False then show ?thesis by (simp add: max.assoc max.commute max.left_commute)
  qed
  then show ?case using Cons by simp
qed

lemma max_nat_list_Max: "max_nat_list ns = Max (insert 0 (set ns))"
  by (simp add: max_nat_list_def fold_max_Max)

lemma value_counts_max: "max_nat_list (map snd (value_counts xs)) = maxc xs"
  by (simp add: max_nat_list_Max value_counts_def maxc_def image_image comp_def)

lemma has_null_run_Cons: "has_null_run bs n \<Longrightarrow> has_null_run (b # bs) n"
proof -
  assume "has_null_run bs n"
  then obtain i where i: "i \<le> length bs" "i + n \<le> length bs" "\<forall>j<n. bs ! (i + j)"
    unfolding has_null_run_def by blast
  have "Suc i \<le> length (b # bs) \<and> Suc i + n \<le> length (b # bs) \<and> (\<forall>j<n. (b # bs) ! (Suc i + j))"
    using i by simp
  then show ?thesis unfolding has_null_run_def by blast
qed

lemma has_null_run_lead: "has_null_run (True # bs) (Suc (length (takeWhile id bs)))"
proof -
  have "(True # bs) ! (0 + j)" if "j < Suc (length (takeWhile id bs))" for j
  proof (cases j)
    case 0 then show ?thesis by simp
  next
    case (Suc k)
    then have k: "k < length (takeWhile id bs)" using that by simp
    then have "takeWhile id bs ! k \<in> set (takeWhile id bs)" by simp
    then have "id (takeWhile id bs ! k)" using set_takeWhileD by metis
    then show ?thesis using Suc k by (simp add: takeWhile_nth)
  qed
  moreover have "0 + Suc (length (takeWhile id bs)) \<le> length (True # bs)"
    by (simp add: length_takeWhile_le)
  ultimately show ?thesis unfolding has_null_run_def by blast
qed

lemma longest_run_has: "has_null_run m (longest_run m)"
proof (induction m)
  case Nil then show ?case by (simp add: has_null_run_def)
next
  case (Cons b bs)
  show ?case
  proof (cases b)
    case False then show ?thesis using Cons has_null_run_Cons by simp
  next
    case True
    show ?thesis
    proof (cases "longest_run bs \<le> Suc (length (takeWhile id bs))")
      case True
      then show ?thesis using \<open>b\<close> has_null_run_lead[of bs] by (simp add: max_def)
    next
      case False
      then show ?thesis using \<open>b\<close> Cons has_null_run_Cons[of bs "longest_run bs" True]
        by (simp add: max_def)
    qed
  qed
qed

lemma longest_run_ge: "has_null_run m k \<Longrightarrow> k \<le> longest_run m"
proof (induction m arbitrary: k)
  case Nil then show ?case by (simp add: has_null_run_def)
next
  case (Cons b bs)
  from Cons.prems obtain i where i: "i + k \<le> length (b # bs)" "\<forall>j<k. (b # bs) ! (i + j)"
    unfolding has_null_run_def by blast
  show ?case
  proof (cases i)
    case (Suc i')
    then have "i' \<le> length bs \<and> i' + k \<le> length bs \<and> (\<forall>j<k. bs ! (i' + j))" using i by simp
    then have "has_null_run bs k" unfolding has_null_run_def by blast
    then have "k \<le> longest_run bs" by (rule Cons.IH)
    then show ?thesis by (simp add: le_max_iff_disj)
  next
    case 0
    show ?thesis
    proof (cases k)
      case 0 then show ?thesis by simp
    next
      case (Suc k')
      have b: b using i(2) \<open>i = 0\<close> Suc by auto
      have "\<And>j. j < k' \<Longrightarrow> id (bs ! j)"
      proof -
        fix j assume "j < k'"
        then have "Suc j < k" using Suc by simp
        then have "(b # bs) ! (i + Suc j)" using i(2) by blast
        then show "id (bs ! j)" using \<open>i = 0\<close> by simp
      qed
      moreover have "k' \<le> length bs" using i(1) \<open>i = 0\<close> Suc by simp
      ultimately have "k' \<le> length (takeWhile id bs)"
        by (rule length_takeWhile_less_P_nth)
      then show ?thesis using b Suc by simp
    qed
  qed
qed

lemma longest_run_is_longest: "is_longest_null_run m (longest_run m)"
  unfolding is_longest_null_run_def using longest_run_has longest_run_ge by blast

lemma rle_longest_run:
  "max_nat_list (map snd (value_counts (mask_select (cumsum_from 0 (ne_shift m)) m))) = longest_run m"
  by (simp add: value_counts_max ne_shift_zip null_ids_link maxc_null_ids)

lemma longest_run_no_nulls: "\<not> list_ex id m \<Longrightarrow> longest_run m = 0"
  by (induction m) auto

lemma check_nans_value:
  "check_consecutive_nans_optimized s threshold_arg =
     (let t = (case threshold_arg of None \<Rightarrow> DEFAULT_GAP_THRESHOLD | Some t \<Rightarrow> t);
          m = map is_null_cell s;
          total = int (length (filter id m))
      in if total < t then total else int (longest_run m))"
proof -
  let ?m = "map is_null_cell s"
  have none: "\<not> list_ex id ?m \<longleftrightarrow> length (filter id ?m) = 0"
    by (auto simp: list_ex_iff filter_empty_conv)
  have rle: "max_nat_list (map snd (value_counts (mask_select (cumsum_from 0 (ne_shift ?m)) ?m)))
      = longest_run ?m"
    by (rule rle_longest_run)
  have sel: "mask_select (cumsum_from 0 (ne_shift ?m)) ?m = [] \<Longrightarrow> longest_run ?m = 0"
    using rle by (simp add: value_counts_def max_nat_list_def)
  show ?thesis
    unfolding check_consecutive_nans_optimized_def Let_def
    using none rle sel longest_run_no_nulls[of ?m]
    by auto
qed

text \<open>
  C3.  \<open>check_consecutive_nans_optimized\<close> treats a value as null iff it is missing
  or the empty string; it returns 0 when the column has no nulls, the total number of
  nulls when that total is strictly below the threshold, and otherwise the length of the
  longest run of consecutive nulls.
\<close>

theorem check_consecutive_nans_optimized_spec:
  "(is_null_cell c \<longleftrightarrow> c = Missing \<or> c = Str []) \<and>
   (let t = (case threshold_arg of None \<Rightarrow> DEFAULT_GAP_THRESHOLD | Some t \<Rightarrow> t);
        m = map is_null_cell s;
        total = int (length (filter id m));
        r = check_consecutive_nans_optimized s threshold_arg
    in (total = 0 \<longrightarrow> r = 0) \<and>
       (total < t \<longrightarrow> r = total) \<and>
       (\<not> total < t \<longrightarrow> r = int (longest_run m) \<and> is_longest_null_run m (longest_run m)))"
proof -
  let ?m = "map is_null_cell s"
  let ?t = "case threshold_arg of None \<Rightarrow> DEFAULT_GAP_THRESHOLD | Some t \<Rightarrow> t"
  let ?total = "int (length (filter id ?m))"
  let ?r = "check_consecutive_nans_optimized s threshold_arg"
  have v: "?r = (if ?total < ?t then ?total else int (longest_run ?m))"
    using check_nans_value[of s threshold_arg] by (simp add: Let_def)
  have z: "longest_run ?m = 0" if "?total = 0"
  proof (rule longest_run_no_nulls)
    from that have "length (filter id ?m) = 0" by linarith
    then show "\<not> list_ex id ?m" by (auto simp: list_ex_iff filter_empty_conv)
  qed
  have a: "?total = 0 \<longrightarrow> ?r = 0" using v z by auto
  have b: "?total < ?t \<longrightarrow> ?r = ?total" using v by simp
  have c: "\<not> ?total < ?t \<longrightarrow> ?r = int (longest_run ?m) \<and> is_longest_null_run ?m (longest_run ?m)"
    using v longest_run_is_longest[of ?m] by simp
  have d: "is_null_cell c \<longleftrightarrow> c = Missing \<or> c = Str []"
    by (simp add: is_null_cell_def isna_def)
  show ?thesis unfolding Let_def using a b c d by blast
qed

theorem check_consecutive_nans_optimized_spec_witness:
  "check_consecutive_nans_optimized [Num 1, Num 2, Num 3] None = 0 \<and>
   (int (length (filter id (map is_null_cell
       [Num 1, Missing, Str [], Num 4, Num 5, Num 6]))) < 10 \<and>
    check_consecutive_nans_optimized
       [Num 1, Missing, Str [], Num 4, Num 5, Num 6] (Some 10) = 2) \<and>
   (\<not> int (length (filter id (map is_null_cell
       [Num 1, Missing, Missing, Num 4, Missing, Missing, Missing, Num 8]))) < 3 \<and>
    check_consecutive_nans_optimized
       [Num 1, Missing, Missing, Num 4, Missing, Missing, Missing, Num 8] (Some 3) = 3)"
  using check_consecutive_nans_optimized_spec [of Missing None "[Num 1, Num 2, Num 3]"]
    check_consecutive_nans_optimized_spec
      [of Missing "Some 10" "[Num 1, Missing, Str [], Num 4, Num 5, Num 6]"]
    check_consecutive_nans_optimized_spec
      [of Missing "Some 3" "[Num 1, Missing, Missing, Num 4, Missing, Missing, Missing, Num 8]"]
  by (simp add: Let_def is_null_cell_def isna_def)

section \<open>merge_files: first writer wins, row count, order of the sources\<close>

lemma dedup_is_new_columns:
  "(let duplicates = filter (\<lambda>col. col \<in> seen) (column_names t)
    in if duplicates \<noteq> [] then drop_columns t duplicates else t) = new_columns seen t"
proof -
  let ?d = "filter (\<lambda>col. col \<in> seen) (column_names t)"
  have a: "filter (\<lambda>(c, vs). c \<notin> set ?d) (cols t) = filter (\<lambda>(c, vs). c \<notin> seen) (cols t)"
    by (rule filter_cong) (force simp: column_names_def)+
  have b: "?d = [] \<Longrightarrow> filter (\<lambda>(c, vs). c \<notin> seen) (cols t) = cols t"
    by (auto simp: filter_empty_conv column_names_def filter_id_conv)
  show ?thesis using a b by (auto simp: Let_def drop_columns_def new_columns_def)
qed

lemma merge_one_all_dfs:
  "all_dfs (merge_one r st p) = all_dfs st @
     (case r p of Inl e \<Rightarrow> []
      | Inr t \<Rightarrow> if empty_table (new_columns (seen_columns st) t) then []
                  else [new_columns (seen_columns st) t])"
  using dedup_is_new_columns[of "seen_columns st"]
  by (auto simp: merge_one_def Let_def reset_index_def empty_table_def column_names_def
      split: sum.splits)

lemma merge_one_seen:
  "seen_columns (merge_one r st p) = seen_columns st \<union>
     (case r p of Inl e \<Rightarrow> {}
      | Inr t \<Rightarrow> if empty_table (new_columns (seen_columns st) t) then {}
                  else set (column_names (new_columns (seen_columns st) t)))"
  using dedup_is_new_columns[of "seen_columns st"]
  by (auto simp: merge_one_def Let_def reset_index_def empty_table_def column_names_def
      split: sum.splits)

lemma foldl_merge_one_all_dfs:
  "all_dfs (foldl (merge_one r) st ps) = all_dfs st @ contributed r (seen_columns st) ps"
proof (induction ps arbitrary: st)
  case Nil then show ?case by simp
next
  case (Cons p ps)
  show ?case
    by (simp add: Cons.IH merge_one_all_dfs merge_one_seen Let_def split: sum.splits)
qed

lemma merge_loop_all_dfs:
  "all_dfs (merge_loop r base ps) = base # contributed r (set (column_names base)) ps"
  by (simp add: merge_loop_def foldl_merge_one_all_dfs reset_index_def)

lemma max_nat_list_ge: "n \<in> set ns \<Longrightarrow> n \<le> max_nat_list ns"
  by (simp add: max_nat_list_Max)



lemma merge_files_untrimmed:
  "fst (merge_files r ask base ps False False) = merge_concat r base ps"
  by (simp add: merge_files_def merge_concat_def Let_def)

lemma contributed_source:
  "k \<in> set (contributed r seen ps) \<Longrightarrow>
     \<exists>p\<in>set ps. \<exists>t. r p = Inr t \<and> nrows k = nrows t \<and> set (cols k) \<subseteq> set (cols t)
        \<and> set (column_names k) \<inter> seen = {} \<and> \<not> empty_table k"
proof (induction ps arbitrary: seen)
  case Nil then show ?case by simp
next
  case (Cons p ps)
  show ?case
  proof (cases "r p")
    case (Inl e)
    then show ?thesis using Cons by auto
  next
    case (Inr t)
    let ?k = "new_columns seen t"
    show ?thesis
    proof (cases "empty_table ?k")
      case True
      then show ?thesis using Cons Inr by auto
    next
      case False
      from Cons.prems Inr False
      consider "k = ?k" | "k \<in> set (contributed r (seen \<union> set (column_names ?k)) ps)"
        by (auto simp: Let_def)
      then show ?thesis
      proof cases
        case 1
        have "nrows k = nrows t \<and> set (cols k) \<subseteq> set (cols t) \<and> set (column_names k) \<inter> seen = {}"
          using 1 by (auto simp: new_columns_def column_names_def)
        then show ?thesis using Inr False 1 by auto
      next
        case 2
        from Cons.IH[OF 2] obtain q u where q: "q \<in> set ps" "r q = Inr u" "nrows k = nrows u"
          "set (cols k) \<subseteq> set (cols u)"
          "set (column_names k) \<inter> (seen \<union> set (column_names ?k)) = {}" "\<not> empty_table k"
          by blast
        from q(5) have "set (column_names k) \<inter> seen = {}" by blast
        with q show ?thesis by auto
      qed
    qed
  qed
qed

lemma names_disjoint_contributed: "names_disjoint (contributed r seen ps)"
proof (induction ps arbitrary: seen)
  case Nil then show ?case by simp
next
  case (Cons p ps)
  show ?case
  proof (cases "r p")
    case (Inl e) then show ?thesis using Cons by simp
  next
    case (Inr t)
    let ?k = "new_columns seen t"
    have "\<And>u c. u \<in> set (contributed r (seen \<union> set (column_names ?k)) ps) \<Longrightarrow>
       c \<in> set (column_names u) \<Longrightarrow> c \<notin> set (column_names ?k)"
      using contributed_source[of _ r "seen \<union> set (column_names ?k)" ps] by blast
    then show ?thesis using Cons Inr by (auto simp: Let_def list_all_iff)
  qed
qed

lemma names_disjoint_all_dfs: "names_disjoint (all_dfs (merge_loop r base ps))"
proof -
  have "\<And>u c. u \<in> set (contributed r (set (column_names base)) ps) \<Longrightarrow>
       c \<in> set (column_names u) \<Longrightarrow> c \<notin> set (column_names base)"
    using contributed_source[of _ r "set (column_names base)" ps] by blast
  then show ?thesis
    by (auto simp: merge_loop_all_dfs names_disjoint_contributed list_all_iff)
qed

lemma merge_concat_nrows:
  "nrows (merge_concat r base ps) = max_nat_list (map nrows (all_dfs (merge_loop r base ps)))"
  by (simp add: merge_concat_def concat_axis1_def Let_def)

lemma merge_concat_cols:
  "cols (merge_concat r base ps) =
     concat (map (\<lambda>t. map (\<lambda>(c, vs). (c, pad_to (nrows (merge_concat r base ps)) vs)) (cols t))
       (base # contributed r (set (column_names base)) ps))"
  by (simp add: merge_concat_def concat_axis1_def Let_def merge_loop_all_dfs)

lemma new_columns_more_seen:
  "(\<And>c. c \<in> set (column_names t) \<Longrightarrow> c \<in> X \<Longrightarrow> c \<in> S) \<Longrightarrow>
     new_columns (S \<union> X) t = new_columns S t"
proof -
  assume h: "\<And>c. c \<in> set (column_names t) \<Longrightarrow> c \<in> X \<Longrightarrow> c \<in> S"
  have "filter (\<lambda>(c, vs). c \<notin> S \<union> X) (cols t) = filter (\<lambda>(c, vs). c \<notin> S) (cols t)"
    by (rule filter_cong) (use h in \<open>force simp: column_names_def\<close>)+
  then show ?thesis by (simp add: new_columns_def)
qed

lemma contributed_single_more_seen:
  "(\<And>c. c \<in> set (source_columns r p) \<Longrightarrow> c \<in> X \<Longrightarrow> c \<in> S) \<Longrightarrow>
     contributed r (S \<union> X) [p] = contributed r S [p]"
proof (cases "r p")
  case (Inl e)
  then show ?thesis by simp
next
  case (Inr t)
  assume "\<And>c. c \<in> set (source_columns r p) \<Longrightarrow> c \<in> X \<Longrightarrow> c \<in> S"
  then have "new_columns (S \<union> X) t = new_columns S t"
    using Inr by (intro new_columns_more_seen) (auto simp: source_columns_def)
  then show ?thesis using Inr by (simp add: Let_def)
qed

lemma contributed_Cons_split:
  "contributed r S (p # ps) =
     contributed r S [p] @
     contributed r (S \<union> \<Union> (set (map (\<lambda>k. set (column_names k)) (contributed r S [p])))) ps"
  by (cases "r p") (auto simp: Let_def)

lemma contributed_single_names:
  "k \<in> set (contributed r S [p]) \<Longrightarrow> c \<in> set (column_names k) \<Longrightarrow>
     c \<in> set (source_columns r p) \<and> c \<notin> S"
  by (cases "r p")
     (auto simp: Let_def source_columns_def new_columns_def column_names_def split: if_splits)

lemma contributed_pair:
  assumes "\<And>c. c \<in> set (source_columns r pa) \<Longrightarrow> c \<in> set (source_columns r pb) \<Longrightarrow> c \<in> S"
  shows "contributed r S [pa, pb] = contributed r S [pa] @ contributed r S [pb]"
proof -
  let ?X = "\<Union> (set (map (\<lambda>k. set (column_names k)) (contributed r S [pa])))"
  have "contributed r (S \<union> ?X) [pb] = contributed r S [pb]"
  proof (rule contributed_single_more_seen)
    fix c assume c: "c \<in> set (source_columns r pb)" "c \<in> ?X"
    then obtain k where "k \<in> set (contributed r S [pa])" "c \<in> set (column_names k)" by auto
    then have "c \<in> set (source_columns r pa)" using contributed_single_names by blast
    then show "c \<in> S" using assms c by blast
  qed
  then show ?thesis using contributed_Cons_split[of r S pa "[pb]"] by simp
qed

lemma pad_cols_fun: "(\<lambda>t. map (\<lambda>(c, vs). (c, pad_to n vs)) (cols t)) = pad_cols n"
  by (rule ext) (simp add: pad_cols_def)

lemma filter_pad_cols_empty:
  "c \<notin> set (column_names t) \<Longrightarrow> filter (\<lambda>p. fst p = c) (pad_cols n t) = []"
  by (force simp: pad_cols_def column_names_def filter_empty_conv)

lemma filter_concat_pad_cols_empty:
  "(\<And>t. t \<in> set ts \<Longrightarrow> c \<notin> set (column_names t)) \<Longrightarrow>
     filter (\<lambda>p. fst p = c) (concat (map (pad_cols n) ts)) = []"
  by (induction ts) (auto simp: filter_pad_cols_empty)

lemma merge_pair_order:
  assumes h: "\<And>c. c \<in> set (source_columns r pa) \<Longrightarrow> c \<in> set (source_columns r pb)
                \<Longrightarrow> c \<in> set (column_names base)"
  shows "nrows (merge_concat r base [pa, pb]) = nrows (merge_concat r base [pb, pa])"
    and "columns_named c (merge_concat r base [pa, pb]) = columns_named c (merge_concat r base [pb, pa])"
proof -
  let ?S = "set (column_names base)"
  let ?ca = "contributed r ?S [pa]" and ?cb = "contributed r ?S [pb]"
  have ab: "contributed r ?S [pa, pb] = ?ca @ ?cb" using h by (intro contributed_pair) blast
  have ba: "contributed r ?S [pb, pa] = ?cb @ ?ca" using h by (intro contributed_pair) blast
  have n: "max_nat_list (map nrows (base # ?ca @ ?cb)) = max_nat_list (map nrows (base # ?cb @ ?ca))"
    by (simp add: max_nat_list_Max Un_commute del: contributed.simps)
  show rows: "nrows (merge_concat r base [pa, pb]) = nrows (merge_concat r base [pb, pa])"
    unfolding merge_concat_nrows merge_loop_all_dfs ab ba by (rule n)
  let ?n = "nrows (merge_concat r base [pb, pa])"
  let ?F = "\<lambda>ts. filter (\<lambda>p. fst p = c) (concat (map (pad_cols ?n) ts))"
  have one: "?F ?ca = [] \<or> ?F ?cb = []"
  proof (cases "\<exists>t\<in>set ?ca. c \<in> set (column_names t)")
    case False
    then show ?thesis using filter_concat_pad_cols_empty[of ?ca c ?n] by blast
  next
    case True
    then have ca: "c \<in> set (source_columns r pa)" "c \<notin> ?S"
      using contributed_single_names[of _ r ?S pa c] by blast+
    have "\<And>t. t \<in> set ?cb \<Longrightarrow> c \<notin> set (column_names t)"
      using contributed_single_names[of _ r ?S pb c] ca h by blast
    then show ?thesis using filter_concat_pad_cols_empty[of ?cb c ?n] by blast
  qed
  have c1: "columns_named c (merge_concat r base [pa, pb]) = ?F [base] @ ?F ?ca @ ?F ?cb"
    unfolding columns_named_def merge_concat_cols ab rows pad_cols_fun
    by (simp del: contributed.simps)
  have c2: "columns_named c (merge_concat r base [pb, pa]) = ?F [base] @ ?F ?cb @ ?F ?ca"
    unfolding columns_named_def merge_concat_cols ba pad_cols_fun
    by (simp del: contributed.simps)
  show "columns_named c (merge_concat r base [pa, pb]) = columns_named c (merge_concat r base [pb, pa])"
    using one c1 c2 by auto
qed

lemma merge_loop_snoc:
  "merge_loop r base (ps @ [p]) = merge_one r (merge_loop r base ps) p"
  by (simp add: merge_loop_def)

lemma seen_foldl:
  "seen_columns st = \<Union> (set (map (\<lambda>k. set (column_names k)) (all_dfs st))) \<Longrightarrow>
   seen_columns (foldl (merge_one r) st ps)
     = \<Union> (set (map (\<lambda>k. set (column_names k)) (all_dfs (foldl (merge_one r) st ps))))"
proof (induction ps arbitrary: st)
  case Nil then show ?case by simp
next
  case (Cons p ps)
  have "seen_columns (merge_one r st p)
     = \<Union> (set (map (\<lambda>k. set (column_names k)) (all_dfs (merge_one r st p))))"
    using Cons.prems by (auto simp: merge_one_all_dfs merge_one_seen split: sum.splits)
  from Cons.IH[OF this] show ?case by simp
qed

lemma merge_loop_seen:
  "seen_columns (merge_loop r base ps)
     = \<Union> (set (map (\<lambda>k. set (column_names k)) (all_dfs (merge_loop r base ps))))"
  unfolding merge_loop_def by (rule seen_foldl) (simp add: reset_index_def)

lemma base_columns_first:
  "take (length (cols base)) (cols (merge_concat r base ps))
     = pad_cols (nrows (merge_concat r base ps)) base"
  unfolding merge_concat_cols pad_cols_fun by (simp add: pad_cols_def)

lemma base_columns_named:
  assumes "c \<in> set (column_names base)"
  shows "columns_named c (merge_concat r base ps)
     = filter (\<lambda>p. fst p = c) (pad_cols (nrows (merge_concat r base ps)) base)"
proof -
  have "\<And>t. t \<in> set (contributed r (set (column_names base)) ps) \<Longrightarrow> c \<notin> set (column_names t)"
    using contributed_source[of _ r "set (column_names base)" ps] assms by blast
  then have "filter (\<lambda>p. fst p = c) (concat (map (pad_cols (nrows (merge_concat r base ps)))
       (contributed r (set (column_names base)) ps))) = []"
    by (rule filter_concat_pad_cols_empty)
  then show ?thesis
    unfolding columns_named_def merge_concat_cols pad_cols_fun by simp
qed

lemma base_le_merged: "nrows base \<le> nrows (merge_concat r base ps)"
  unfolding merge_concat_nrows merge_loop_all_dfs by (rule max_nat_list_ge) simp

lemma take_pad_cols:
  assumes "wf_table base" "nrows base \<le> n"
  shows "map (\<lambda>(c, vs). (c, take (nrows base) vs)) (filter (\<lambda>p. fst p = c) (pad_cols n base))
     = columns_named c base"
proof -
  have "\<And>c vs. (c, vs) \<in> set (cols base) \<Longrightarrow> take (nrows base) (pad_to n vs) = vs"
    using assms by (auto simp: wf_table_def list_all_iff pad_to_def)
  then have "map (\<lambda>(c, vs). (c, take (nrows base) vs)) (pad_cols n base) = cols base"
    unfolding pad_cols_def map_map by (intro map_idI) auto
  then have a: "filter (\<lambda>p. fst p = c) (map (\<lambda>(c, vs). (c, take (nrows base) vs)) (pad_cols n base))
     = columns_named c base"
    by (simp add: columns_named_def)
  have b: "(\<lambda>p. fst p = c) \<circ> (\<lambda>(c, vs). (c, take (nrows base) vs)) = (\<lambda>p. fst p = c)"
    by (auto simp: fun_eq_iff)
  from a[unfolded filter_map b] show ?thesis .
qed

text \<open>
  C1 (as amended).  For every base table and every list of source files, each pass of
  the loop appends the source without the columns whose names are in \<open>seen_columns\<close>,
  and \<open>seen_columns\<close> holds exactly the column names of the base and of the tables
  appended so far: a source that fails to load, has no rows or brings no new column
  appends nothing and reserves no name.  No two tables of the batch share a column
  name.  In the merged table (before trimming) the base's columns come first, only
  padded with missing values when a longer source was appended; for every column name of
  the base, the merged columns of that name are the base's, and over the base's rows
  their values are unchanged.
\<close>

theorem merge_first_writer_wins:
  "(let st = merge_loop r base ps;
        m = fst (merge_files r ask base ps False False)
    in all_dfs (merge_loop r base (ps @ [p])) = all_dfs st @
          (case r p of Inl e \<Rightarrow> []
           | Inr t \<Rightarrow> if empty_table (new_columns (seen_columns st) t) then []
                       else [new_columns (seen_columns st) t])
       \<and> seen_columns st = \<Union> (set (map (\<lambda>k. set (column_names k)) (all_dfs st)))
       \<and> hd (all_dfs st) = base
       \<and> names_disjoint (all_dfs st)
       \<and> take (length (cols base)) (cols m) = pad_cols (nrows m) base
       \<and> (\<forall>c\<in>set (column_names base).
            columns_named c m = filter (\<lambda>p. fst p = c) (pad_cols (nrows m) base))
       \<and> (wf_table base \<longrightarrow>
            (\<forall>c\<in>set (column_names base).
               map (\<lambda>(c, vs). (c, take (nrows base) vs)) (columns_named c m)
                 = columns_named c base)))"
proof -
  let ?m = "merge_concat r base ps"
  have 1: "all_dfs (merge_loop r base (ps @ [p])) = all_dfs (merge_loop r base ps) @
          (case r p of Inl e \<Rightarrow> []
           | Inr t \<Rightarrow> if empty_table (new_columns (seen_columns (merge_loop r base ps)) t) then []
                       else [new_columns (seen_columns (merge_loop r base ps)) t])"
    unfolding merge_loop_snoc by (rule merge_one_all_dfs)
  have 3: "hd (all_dfs (merge_loop r base ps)) = base" by (simp add: merge_loop_all_dfs)
  have 6: "\<forall>c\<in>set (column_names base).
            columns_named c ?m = filter (\<lambda>p. fst p = c) (pad_cols (nrows ?m) base)"
    using base_columns_named by blast
  have 7: "wf_table base \<longrightarrow> (\<forall>c\<in>set (column_names base).
               map (\<lambda>(c, vs). (c, take (nrows base) vs)) (columns_named c ?m)
                 = columns_named c base)"
    using base_columns_named[of _ base r ps] take_pad_cols[OF _ base_le_merged[of base r ps]]
    by simp
  show ?thesis
    unfolding Let_def merge_files_untrimmed
    using 1 merge_loop_seen[of r base ps] 3 names_disjoint_all_dfs[of r base ps]
      base_columns_first[of base r ps] 6 7
    by blast
qed

lemmas merge_eval =
  merge_files_def merge_loop_def merge_one_def read_from_def Let_def reset_index_def
  column_names_def drop_columns_def empty_table_def concat_axis1_def max_nat_list_def
  pad_to_def columns_named_def

theorem merge_first_writer_wins_witness:
  "wf_table \<lparr>nrows = 3, cols = [(''secs'', [Num 0, Num 1, Num 2]),
                                  (''watts'', [Num 100, Num 150, Num 175])]\<rparr> \<and>
   ''watts'' \<in> set (column_names \<lparr>nrows = 3, cols = [(''secs'', [Num 0, Num 1, Num 2]),
                                  (''watts'', [Num 100, Num 150, Num 175])]\<rparr>) \<and>
   map (\<lambda>(c, vs). (c, take 3 vs))
     (columns_named ''watts''
       (fst (merge_files
         (read_from [(''clean.csv'',
            \<lparr>nrows = 3, cols = [(''watts'', [Num 999, Num 999, Num 999]),
                                (''new_col'', [Num 1, Num 2, Num 3])]\<rparr>)])
         (silent_ask True)
         \<lparr>nrows = 3, cols = [(''secs'', [Num 0, Num 1, Num 2]),
                             (''watts'', [Num 100, Num 150, Num 175])]\<rparr>
         [''clean.csv''] False False)))
     = [(''watts'', [Num 100, Num 150, Num 175])]"
proof -
  let ?base = "\<lparr>nrows = 3, cols = [(''secs'', [Num 0, Num 1, Num 2]),
                                     (''watts'', [Num 100, Num 150, Num 175])]\<rparr>"
  let ?r = "read_from [(''clean.csv'',
            \<lparr>nrows = 3, cols = [(''watts'', [Num 999, Num 999, Num 999]),
                                (''new_col'', [Num 1, Num 2, Num 3])]\<rparr>)]"
  let ?m = "fst (merge_files ?r (silent_ask True) ?base [''clean.csv''] False False)"
  have wf: "wf_table ?base" by (simp add: wf_table_def)
  have mem: "''watts'' \<in> set (column_names ?base)" by (simp add: column_names_def)
  have "wf_table ?base \<longrightarrow> (\<forall>c\<in>set (column_names ?base).
          map (\<lambda>(c, vs). (c, take (nrows ?base) vs)) (columns_named c ?m) = columns_named c ?base)"
    using merge_first_writer_wins
      [where r = ?r and base = ?base and ps = "[''clean.csv'']" and p = "''clean.csv''"
         and ask = "silent_ask True"]
    unfolding Let_def by blast
  with wf mem have "map (\<lambda>(c, vs). (c, take (nrows ?base) vs)) (columns_named ''watts'' ?m)
      = columns_named ''watts'' ?base" by blast
  moreover have "columns_named ''watts'' ?base = [(''watts'', [Num 100, Num 150, Num 175])]"
    by (simp add: columns_named_def)
  ultimately show ?thesis using wf mem by simp
qed

text \<open>
  C1 as stated fails: a source with a header and no rows offers \<open>smo2\<close> and is skipped,
  so the later source's \<open>smo2\<close> is not dropped although the name appears in an earlier
  source table.
\<close>

theorem merge_first_writer_wins_counterexample:
  "''smo2'' \<in> set (column_names \<lparr>nrows = 0, cols = [(''smo2'', [])]\<rparr>) \<and>
   cols (fst (merge_files
      (read_from [(''a.csv'', \<lparr>nrows = 0, cols = [(''smo2'', [])]\<rparr>),
                  (''b.csv'', \<lparr>nrows = 2, cols = [(''smo2'', [Num 65, Num 64])]\<rparr>)])
      (silent_ask True)
      \<lparr>nrows = 2, cols = [(''secs'', [Num 0, Num 1])]\<rparr>
      [''a.csv'', ''b.csv''] False False))
   = [(''secs'', [Num 0, Num 1]), (''smo2'', [Num 65, Num 64])]"
  by (simp add: merge_eval)




lemma same_columns_set:
  assumes "\<And>c. columns_named c t1 = columns_named c t2"
  shows "set (cols t1) = set (cols t2)"
proof -
  have "p \<in> set (cols t) \<longleftrightarrow> p \<in> set (columns_named (fst p) t)" for p t
    by (simp add: columns_named_def)
  then show ?thesis using assms by (metis subsetI subset_antisym)
qed

lemma same_columns_complete_indices:
  assumes "nrows t1 = nrows t2" "set (cols t1) = set (cols t2)"
  shows "complete_indices t1 = complete_indices t2"
proof -
  have "row_complete t1 = row_complete t2"
    using assms(2) by (simp add: row_complete_def list_all_iff fun_eq_iff)
  then show ?thesis using assms(1) by (simp add: complete_indices_def)
qed

lemma head_trim_general:
  "fst (validate_and_trim_head ask df) =
     (case complete_indices df of
        [] \<Rightarrow> df
      | k # rest \<Rightarrow>
          if k = 0 \<or> \<not> ask k then df
          else df\<lparr>cols := map (\<lambda>(c, vs). if is_time_column c then (c, vs)
                                        else (c, shift_up k vs)) (cols df)\<rparr>)"
proof (cases "complete_indices df")
  case Nil
  then show ?thesis by (simp add: validate_and_trim_head_def)
next
  case (Cons k rest)
  have "map (\<lambda>(c, vs). if c \<in> set (filter (\<lambda>c. c \<notin> set (filter is_time_column (column_names df)))
                                   (column_names df))
                         then (c, shift_up k vs) else (c, vs)) (cols df)
      = map (\<lambda>(c, vs). if is_time_column c then (c, vs) else (c, shift_up k vs)) (cols df)"
    by (rule map_cong[OF refl]) (force simp: column_names_def)
  then show ?thesis using Cons by (simp add: validate_and_trim_head_def Let_def)
qed

lemma tail_trim_general:
  "fst (validate_and_trim_tail df) =
     (if complete_indices df = [] \<or> nrows df - (last (complete_indices df) + 1) = 0 then df
      else head_rows (last (complete_indices df) + 1) df)"
  by (simp add: validate_and_trim_tail_def Let_def)

lemma columns_named_map:
  assumes "\<And>p. fst (f p) = fst p"
  shows "columns_named c (df\<lparr>cols := map f (cols df)\<rparr>) = map f (columns_named c df)"
proof -
  have e: "(\<lambda>p. fst p = c) \<circ> f = (\<lambda>p. fst p = c)" using assms by (auto simp: fun_eq_iff)
  have u: "cols (df\<lparr>cols := map f (cols df)\<rparr>) = map f (cols df)" by simp
  show ?thesis unfolding columns_named_def u filter_map e ..
qed

lemma columns_named_head_rows:
  "columns_named c (head_rows n df) = map (\<lambda>(c, vs). (c, take n vs)) (columns_named c df)"
proof -
  have e: "(\<lambda>p. fst p = c) \<circ> (\<lambda>(c, vs). (c, take n vs)) = (\<lambda>p. fst p = c)"
    by (auto simp: fun_eq_iff)
  have u: "cols (head_rows n df) = map (\<lambda>(c, vs). (c, take n vs)) (cols df)"
    by (simp add: head_rows_def)
  show ?thesis unfolding columns_named_def u filter_map e ..
qed

lemma head_trim_same_columns:
  assumes "nrows t1 = nrows t2" "\<And>c. columns_named c t1 = columns_named c t2"
  shows "nrows (fst (validate_and_trim_head ask t1)) = nrows (fst (validate_and_trim_head ask t2))"
    and "columns_named c (fst (validate_and_trim_head ask t1))
       = columns_named c (fst (validate_and_trim_head ask t2))"
proof -
  have ci: "complete_indices t1 = complete_indices t2"
    using assms(1) same_columns_set[OF assms(2)] by (rule same_columns_complete_indices)
  have fstp: "\<And>k p. fst ((\<lambda>(c, vs). if is_time_column c then (c, vs) else (c, shift_up k vs)) p)
      = fst p"
    by (auto simp: case_prod_unfold)
  show "nrows (fst (validate_and_trim_head ask t1)) = nrows (fst (validate_and_trim_head ask t2))"
    unfolding head_trim_general ci using assms(1) by (simp split: list.splits)
  show "columns_named c (fst (validate_and_trim_head ask t1))
       = columns_named c (fst (validate_and_trim_head ask t2))"
    unfolding head_trim_general ci
    using assms(2) columns_named_map[OF fstp]
    by (simp split: list.splits)
qed

lemma tail_trim_same_columns:
  assumes "nrows t1 = nrows t2" "\<And>c. columns_named c t1 = columns_named c t2"
  shows "nrows (fst (validate_and_trim_tail t1)) = nrows (fst (validate_and_trim_tail t2))"
    and "columns_named c (fst (validate_and_trim_tail t1))
       = columns_named c (fst (validate_and_trim_tail t2))"
proof -
  have ci: "complete_indices t1 = complete_indices t2"
    using assms(1) same_columns_set[OF assms(2)] by (rule same_columns_complete_indices)
  show "nrows (fst (validate_and_trim_tail t1)) = nrows (fst (validate_and_trim_tail t2))"
    unfolding tail_trim_general ci using assms(1) by (simp add: head_rows_def)
  show "columns_named c (fst (validate_and_trim_tail t1))
       = columns_named c (fst (validate_and_trim_tail t2))"
    unfolding tail_trim_general ci using assms by (simp add: columns_named_head_rows)
qed

lemma merge_files_table:
  "fst (merge_files r ask base ps vh vt) =
     (let m = merge_concat r base ps;
          m1 = (if vh then fst (validate_and_trim_head ask m) else m)
      in if vt then fst (validate_and_trim_tail m1) else m1)"
  by (simp add: merge_files_def merge_concat_def Let_def case_prod_unfold)

text \<open>
  C6 (as amended).  When two sources share no column name beyond those of the base, merging
  them in the order [A, B] and in the order [B, A] gives tables with the same row count
  and, under every column name, the same columns with the same values, whichever of the
  head and tail trims are requested.
\<close>

theorem merge_order_independent:
  assumes "set (source_columns r pa) \<inter> set (source_columns r pb) \<subseteq> set (column_names base)"
  shows "nrows (fst (merge_files r ask base [pa, pb] validate_head validate_tail))
           = nrows (fst (merge_files r ask base [pb, pa] validate_head validate_tail))
       \<and> (\<forall>c. columns_named c (fst (merge_files r ask base [pa, pb] validate_head validate_tail))
             = columns_named c (fst (merge_files r ask base [pb, pa] validate_head validate_tail)))"
proof -
  have h: "\<And>c. c \<in> set (source_columns r pa) \<Longrightarrow> c \<in> set (source_columns r pb)
      \<Longrightarrow> c \<in> set (column_names base)"
    using assms by blast
  let ?m1 = "merge_concat r base [pa, pb]" and ?m2 = "merge_concat r base [pb, pa]"
  have n0: "nrows ?m1 = nrows ?m2" by (rule merge_pair_order(1)[OF h])
  have c0: "\<And>c. columns_named c ?m1 = columns_named c ?m2" by (rule merge_pair_order(2)[OF h])
  let ?h1 = "if validate_head then fst (validate_and_trim_head ask ?m1) else ?m1"
  let ?h2 = "if validate_head then fst (validate_and_trim_head ask ?m2) else ?m2"
  have n1: "nrows ?h1 = nrows ?h2"
    using n0 head_trim_same_columns(1)[OF n0 c0] by simp
  have c1: "\<And>c. columns_named c ?h1 = columns_named c ?h2"
    using c0 head_trim_same_columns(2)[OF n0 c0] by simp
  let ?t1 = "if validate_tail then fst (validate_and_trim_tail ?h1) else ?h1"
  let ?t2 = "if validate_tail then fst (validate_and_trim_tail ?h2) else ?h2"
  have n2: "nrows ?t1 = nrows ?t2"
    using n1 tail_trim_same_columns(1)[OF n1 c1] by simp
  have c2: "\<And>c. columns_named c ?t1 = columns_named c ?t2"
    using c1 tail_trim_same_columns(2)[OF n1 c1] by simp
  show ?thesis unfolding merge_files_table Let_def using n2 c2 by blast
qed

theorem merge_order_independent_witness:
  "set (source_columns
      (read_from [(''a.csv'', \<lparr>nrows = 2, cols = [(''smo2'', [Num 65, Num 64])]\<rparr>),
                  (''b.csv'', \<lparr>nrows = 2, cols = [(''TymeBreathRate'', [Num 15, Num 16])]\<rparr>)])
      ''a.csv'')
   \<inter> set (source_columns
      (read_from [(''a.csv'', \<lparr>nrows = 2, cols = [(''smo2'', [Num 65, Num 64])]\<rparr>),
                  (''b.csv'', \<lparr>nrows = 2, cols = [(''TymeBreathRate'', [Num 15, Num 16])]\<rparr>)])
      ''b.csv'')
   \<subseteq> set (column_names \<lparr>nrows = 2, cols = [(''secs'', [Num 0, Num 1])]\<rparr>) \<and>
   columns_named ''smo2'' (fst (merge_files
      (read_from [(''a.csv'', \<lparr>nrows = 2, cols = [(''smo2'', [Num 65, Num 64])]\<rparr>),
                  (''b.csv'', \<lparr>nrows = 2, cols = [(''TymeBreathRate'', [Num 15, Num 16])]\<rparr>)])
      (silent_ask True) \<lparr>nrows = 2, cols = [(''secs'', [Num 0, Num 1])]\<rparr>
      [''a.csv'', ''b.csv''] True True))
   = columns_named ''smo2'' (fst (merge_files
      (read_from [(''a.csv'', \<lparr>nrows = 2, cols = [(''smo2'', [Num 65, Num 64])]\<rparr>),
                  (''b.csv'', \<lparr>nrows = 2, cols = [(''TymeBreathRate'', [Num 15, Num 16])]\<rparr>)])
      (silent_ask True) \<lparr>nrows = 2, cols = [(''secs'', [Num 0, Num 1])]\<rparr>
      [''b.csv'', ''a.csv''] True True))"
proof -
  let ?r = "read_from [(''a.csv'', \<lparr>nrows = 2, cols = [(''smo2'', [Num 65, Num 64])]\<rparr>),
                  (''b.csv'', \<lparr>nrows = 2, cols = [(''TymeBreathRate'', [Num 15, Num 16])]\<rparr>)]"
  let ?base = "\<lparr>nrows = 2, cols = [(''secs'', [Num 0, Num 1])]\<rparr>"
  have h: "set (source_columns ?r ''a.csv'') \<inter> set (source_columns ?r ''b.csv'')
      \<subseteq> set (column_names ?base)"
    by (simp add: source_columns_def read_from_def column_names_def)
  from merge_order_independent[where r = ?r and pa = "''a.csv''" and pb = "''b.csv''"
      and base = ?base and ask = "silent_ask True" and validate_head = True
      and validate_tail = True, OF h] h
  show ?thesis by blast
qed

text \<open>
  C6 as stated fails: when both sources offer \<open>smo2\<close>, the first one listed wins, so
  the two orders give different values (here with both trims on, as by default; every
  row is complete, so they change nothing).
\<close>

theorem merge_order_independent_counterexample:
  "columns_named ''smo2'' (fst (merge_files
      (read_from [(''a.csv'', \<lparr>nrows = 1, cols = [(''smo2'', [Num 65])]\<rparr>),
                  (''b.csv'', \<lparr>nrows = 1, cols = [(''smo2'', [Num 70])]\<rparr>)])
      (silent_ask True) \<lparr>nrows = 1, cols = [(''secs'', [Num 0])]\<rparr>
      [''a.csv'', ''b.csv''] True True)) = [(''smo2'', [Num 65])] \<and>
   columns_named ''smo2'' (fst (merge_files
      (read_from [(''a.csv'', \<lparr>nrows = 1, cols = [(''smo2'', [Num 65])]\<rparr>),
                  (''b.csv'', \<lparr>nrows = 1, cols = [(''smo2'', [Num 70])]\<rparr>)])
      (silent_ask True) \<lparr>nrows = 1, cols = [(''secs'', [Num 0])]\<rparr>
      [''b.csv'', ''a.csv''] True True)) = [(''smo2'', [Num 70])]"
  by (simp add: merge_eval validate_and_trim_head_def validate_and_trim_tail_def
      complete_indices_def row_complete_def cell_incomplete_def)

section \<open>Head trim: time columns stay, data columns move up\<close>

lemma filter_first:
  assumes "k < n" "P k" "\<forall>i<k. \<not> P i"
  shows "filter P [0..<n] = k # filter P [Suc k..<n]"
proof -
  have "[0..<n] = [0..<k] @ [k..<n]"
    using assms(1) upt_add_eq_append[of 0 k "n - k"] by simp
  moreover have "[k..<n] = k # [Suc k..<n]" using assms(1) by (simp add: upt_conv_Cons)
  moreover have "filter P [0..<k] = []" using assms(3) by (simp add: filter_empty_conv)
  ultimately show ?thesis using assms(2) by simp
qed

lemma data_column_iff:
  "c \<in> set (column_names df) \<Longrightarrow>
   c \<in> set (filter (\<lambda>c. c \<notin> set (filter is_time_column (column_names df))) (column_names df))
     \<longleftrightarrow> \<not> is_time_column c"
  by auto

lemma shift_up_nth:
  assumes "length vs = n" "k \<le> n" "i < n"
  shows "shift_up k vs ! i = (if i + k < n then vs ! (i + k) else Missing)"
  using assms by (auto simp: shift_up_def nth_append add.commute)

lemma shift_up_length: "length (shift_up k vs) = length vs"
  by (simp add: shift_up_def)

lemma head_trim_result:
  assumes "k < nrows df" "row_complete df k" "\<forall>i<k. \<not> row_complete df i"
  shows "fst (validate_and_trim_head ask df) =
     (if k = 0 \<or> \<not> ask k then df
      else df\<lparr>cols := map (\<lambda>(c, vs). if is_time_column c then (c, vs) else (c, shift_up k vs))
                         (cols df)\<rparr>)"
proof -
  have ci: "complete_indices df = k # filter (row_complete df) [Suc k..<nrows df]"
    unfolding complete_indices_def using assms by (rule filter_first)
  have "map (\<lambda>(c, vs). if c \<in> set (filter (\<lambda>c. c \<notin> set (filter is_time_column (column_names df)))
                                   (column_names df))
                         then (c, shift_up k vs) else (c, vs)) (cols df)
      = map (\<lambda>(c, vs). if is_time_column c then (c, vs) else (c, shift_up k vs)) (cols df)"
    by (rule map_cong[OF refl]) (force simp: column_names_def)
  then show ?thesis
    unfolding validate_and_trim_head_def ci by (simp add: Let_def)
qed

text \<open>
  C8.  Let row \<open>k\<close> be the first fully complete row of the table.  When \<open>k > 0\<close> and
  the user confirms, the head trim keeps the row count and the column labels, leaves
  every time column exactly as it was, and moves every other column up by \<open>k\<close> rows
  (row \<open>i\<close> receives the value of row \<open>i + k\<close>, the last \<open>k\<close> rows become missing).
  When the first row is already complete or the user declines, the table is returned
  unchanged.
\<close>

theorem head_trim_frame:
  assumes "wf_table df" "k < nrows df" "row_complete df k" "\<forall>i<k. \<not> row_complete df i"
  shows "(let df' = fst (validate_and_trim_head ask df)
          in if 0 < k \<and> ask k
             then nrows df' = nrows df
                \<and> length (cols df') = length (cols df)
                \<and> (\<forall>j<length (cols df).
                      fst (cols df' ! j) = fst (cols df ! j)
                    \<and> length (snd (cols df' ! j)) = nrows df
                    \<and> (is_time_column (fst (cols df ! j)) \<longrightarrow>
                          snd (cols df' ! j) = snd (cols df ! j))
                    \<and> (\<not> is_time_column (fst (cols df ! j)) \<longrightarrow>
                          (\<forall>i<nrows df. snd (cols df' ! j) ! i =
                              (if i + k < nrows df then snd (cols df ! j) ! (i + k)
                               else Missing))))
             else df' = df)"
proof (cases "0 < k \<and> ask k")
  case False
  then show ?thesis using head_trim_result[OF assms(2-4), of ask] by (auto simp: Let_def)
next
  case True
  let ?f = "\<lambda>(c, vs). if is_time_column c then (c, vs) else (c, shift_up k vs)"
  have r: "fst (validate_and_trim_head ask df) = df\<lparr>cols := map ?f (cols df)\<rparr>"
    using True head_trim_result[OF assms(2-4), of ask] by simp
  have col: "fst (?f (cols df ! j)) = fst (cols df ! j)
        \<and> length (snd (?f (cols df ! j))) = nrows df
        \<and> (is_time_column (fst (cols df ! j)) \<longrightarrow> snd (?f (cols df ! j)) = snd (cols df ! j))
        \<and> (\<not> is_time_column (fst (cols df ! j)) \<longrightarrow>
              (\<forall>i<nrows df. snd (?f (cols df ! j)) ! i =
                  (if i + k < nrows df then snd (cols df ! j) ! (i + k) else Missing)))"
    if j: "j < length (cols df)" for j
  proof -
    obtain c vs where cv: "cols df ! j = (c, vs)" by (cases "cols df ! j")
    have "(c, vs) \<in> set (cols df)" using j cv by (metis nth_mem)
    then have len: "length vs = nrows df" using assms(1) by (auto simp: wf_table_def list_all_iff)
    show ?thesis
      using cv len shift_up_nth[of vs "nrows df" k] assms(2)
      by (auto simp: shift_up_length)
  qed
  show ?thesis using True col by (simp add: r Let_def)
qed

lemma is_time_secs: "is_time_column ''secs''"
  by (simp add: is_time_column_def lower_def lower_char_def TIME_KEYWORDS_def)

lemma not_time_smo2: "\<not> is_time_column ''smo2''"
  by (simp add: is_time_column_def lower_def lower_char_def TIME_KEYWORDS_def)

theorem head_trim_frame_witness:
  "wf_table \<lparr>nrows = 3, cols = [(''secs'', [Num 0, Num 1, Num 2]),
                                  (''smo2'', [Missing, Num 65, Num 64])]\<rparr> \<and>
   row_complete \<lparr>nrows = 3, cols = [(''secs'', [Num 0, Num 1, Num 2]),
                                      (''smo2'', [Missing, Num 65, Num 64])]\<rparr> 1 \<and>
   \<not> row_complete \<lparr>nrows = 3, cols = [(''secs'', [Num 0, Num 1, Num 2]),
                                      (''smo2'', [Missing, Num 65, Num 64])]\<rparr> 0 \<and>
   snd (cols (fst (validate_and_trim_head (silent_ask True)
      \<lparr>nrows = 3, cols = [(''secs'', [Num 0, Num 1, Num 2]),
                          (''smo2'', [Missing, Num 65, Num 64])]\<rparr>)) ! 0)
     = [Num 0, Num 1, Num 2] \<and>
   snd (cols (fst (validate_and_trim_head (silent_ask True)
      \<lparr>nrows = 3, cols = [(''secs'', [Num 0, Num 1, Num 2]),
                          (''smo2'', [Missing, Num 65, Num 64])]\<rparr>)) ! 1) ! 0 = Num 65 \<and>
   snd (cols (fst (validate_and_trim_head (silent_ask True)
      \<lparr>nrows = 3, cols = [(''secs'', [Num 0, Num 1, Num 2]),
                          (''smo2'', [Missing, Num 65, Num 64])]\<rparr>)) ! 1) ! 2 = Missing \<and>
   fst (validate_and_trim_head (silent_ask False)
      \<lparr>nrows = 3, cols = [(''secs'', [Num 0, Num 1, Num 2]),
                          (''smo2'', [Missing, Num 65, Num 64])]\<rparr>)
     = \<lparr>nrows = 3, cols = [(''secs'', [Num 0, Num 1, Num 2]),
                            (''smo2'', [Missing, Num 65, Num 64])]\<rparr>"
proof -
  let ?df = "\<lparr>nrows = 3, cols = [(''secs'', [Num 0, Num 1, Num 2]),
                                   (''smo2'', [Missing, Num 65, Num 64])]\<rparr>"
  have wf: "wf_table ?df" by (simp add: wf_table_def)
  have k: "(1::nat) < nrows ?df" by simp
  have c1: "row_complete ?df 1" by (simp add: row_complete_def cell_incomplete_def)
  have c0: "\<not> row_complete ?df 0" by (simp add: row_complete_def cell_incomplete_def)
  have lt: "\<forall>i<1::nat. \<not> row_complete ?df i" using c0 by simp
  note yes = head_trim_frame[OF wf k c1 lt, of "silent_ask True"]
  note no = head_trim_frame[OF wf k c1 lt, of "silent_ask False"]
  let ?d = "fst (validate_and_trim_head (silent_ask True) ?df)"
  have a: "\<forall>j<length (cols ?df).
             (is_time_column (fst (cols ?df ! j)) \<longrightarrow> snd (cols ?d ! j) = snd (cols ?df ! j))
           \<and> (\<not> is_time_column (fst (cols ?df ! j)) \<longrightarrow>
                 (\<forall>i<nrows ?df. snd (cols ?d ! j) ! i =
                     (if i + 1 < nrows ?df then snd (cols ?df ! j) ! (i + 1) else Missing)))"
    using yes unfolding Let_def by (simp add: silent_ask_def)
  have t0: "snd (cols ?d ! 0) = [Num 0, Num 1, Num 2]"
    using a[rule_format, of 0] is_time_secs by simp
  have d: "\<forall>i<nrows ?df. snd (cols ?d ! 1) ! i =
                     (if i + 1 < nrows ?df then snd (cols ?df ! 1) ! (i + 1) else Missing)"
    using a[rule_format, of 1] not_time_smo2 by simp
  have d0: "snd (cols ?d ! 1) ! 0 = Num 65" using d[rule_format, of 0] by simp
  have d2: "snd (cols ?d ! 1) ! 2 = Missing" using d[rule_format, of 2] by simp
  have n: "fst (validate_and_trim_head (silent_ask False) ?df) = ?df"
    using no unfolding Let_def by (simp add: silent_ask_def)
  show ?thesis using wf c1 c0 t0 d0 d2 n by blast
qed

text \<open>A text cell that holds only a no-break space counts as missing, as under \<^verbatim>\<open>^\s*$\<close>.\<close>

lemma head_trim_no_break_space:
  "fst (validate_and_trim_head (silent_ask True)
      \<lparr>nrows = 2, cols = [(''secs'', [Num 0, Num 1]),
                          (''note'', [Str [CHR 0xA0], Str ''ok''])]\<rparr>)
   = \<lparr>nrows = 2, cols = [(''secs'', [Num 0, Num 1]), (''note'', [Str ''ok'', Missing])]\<rparr>"
proof -
  let ?df = "\<lparr>nrows = 2, cols = [(''secs'', [Num 0, Num 1]),
                                   (''note'', [Str [CHR 0xA0], Str ''ok''])]\<rparr>"
  have k: "(1::nat) < nrows ?df" by simp
  have c1: "row_complete ?df 1"
    by (simp add: row_complete_def cell_incomplete_def is_space_def)
  have c0: "\<forall>i<1::nat. \<not> row_complete ?df i"
    by (simp add: row_complete_def cell_incomplete_def is_space_def)
  have n: "\<not> is_time_column ''note''"
    by (simp add: is_time_column_def lower_def lower_char_def TIME_KEYWORDS_def)
  show ?thesis
    using head_trim_result[OF k c1 c0, of "silent_ask True"] is_time_secs n
    by (simp add: silent_ask_def shift_up_def)
qed

section \<open>Validator: the gap threshold and the timestamp checks\<close>

lemma validate_column_issues:
  assumes "distinct (map fst cs)" "(c, vs) \<in> set cs"
  shows "filter (\<lambda>w. issue_column w = c)
           (concat (map (\<lambda>(col, vs).
              let max_gap = check_consecutive_nans_optimized vs (Some t)
              in if max_gap \<ge> t then [GapIssue col max_gap] else []) cs))
       = (if check_consecutive_nans_optimized vs (Some t) \<ge> t
          then [GapIssue c (check_consecutive_nans_optimized vs (Some t))] else [])"
  using assms
proof (induction cs)
  case Nil then show ?case by simp
next
  case (Cons x cs)
  obtain c' vs' where x: "x = (c', vs')" by (cases x)
  show ?case
  proof (cases "c' = c")
    case True
    then have "vs' = vs" using Cons.prems x by (auto simp: rev_image_eqI)
    moreover have "\<And>col v. (col, v) \<in> set cs \<Longrightarrow> col \<noteq> c"
      using Cons.prems x True by (auto simp: rev_image_eqI)
    then have "filter (\<lambda>w. issue_column w = c)
           (concat (map (\<lambda>(col, vs).
              let max_gap = check_consecutive_nans_optimized vs (Some t)
              in if max_gap \<ge> t then [GapIssue col max_gap] else []) cs)) = []"
      by (fastforce simp: filter_empty_conv Let_def split: if_splits)
    ultimately show ?thesis using x True by (simp add: Let_def)
  next
    case False
    then have "(c, vs) \<in> set cs" using Cons.prems x by auto
    then show ?thesis using Cons x False by (simp add: Let_def)
  qed
qed

lemma null_count_gap:
  assumes "vs = pre @ gap @ post" "list_all is_null_cell gap"
    "\<not> list_ex is_null_cell pre" "\<not> list_ex is_null_cell post"
  shows "length (filter id (map is_null_cell vs)) = length gap"
proof -
  have "filter is_null_cell pre = []" "filter is_null_cell post = []"
    using assms(3,4) by (auto simp: list_ex_iff filter_empty_conv)
  moreover have "filter is_null_cell gap = gap"
    using assms(2) by (auto simp: list_all_iff filter_id_conv)
  ultimately show ?thesis using assms(1) by (simp add: filter_map comp_def)
qed

lemma takeWhile_le_filter: "length (takeWhile P xs) \<le> length (filter P xs)"
  by (induction xs) auto

lemma longest_run_le_total: "longest_run m \<le> length (filter id m)"
proof (induction m)
  case Nil then show ?case by simp
next
  case (Cons b bs)
  have tw: "length (takeWhile id bs) \<le> length (filter id bs)" by (rule takeWhile_le_filter)
  show ?case
  proof (cases b)
    case True
    have "longest_run (b # bs) = max (Suc (length (takeWhile id bs))) (longest_run bs)"
      using True by simp
    moreover have "length (filter id (b # bs)) = Suc (length (filter id bs))" using True by simp
    ultimately show ?thesis using tw Cons by linarith
  next
    case False
    have "longest_run (b # bs) = longest_run bs" using False by simp
    moreover have "length (filter id (b # bs)) = length (filter id bs)" using False by simp
    ultimately show ?thesis using Cons by linarith
  qed
qed

lemma longest_run_unique: "is_longest_null_run m n \<Longrightarrow> longest_run m = n"
proof -
  assume h: "is_longest_null_run m n"
  have "has_null_run m (longest_run m)" by (rule longest_run_has)
  moreover from this have "longest_run m \<le> length m" unfolding has_null_run_def by auto
  ultimately have "longest_run m \<le> n" using h unfolding is_longest_null_run_def by blast
  moreover have "n \<le> longest_run m"
    using h longest_run_ge unfolding is_longest_null_run_def by blast
  ultimately show ?thesis by simp
qed

lemma check_at_least_threshold:
  assumes "has_null_run (map is_null_cell vs) t"
  shows "check_consecutive_nans_optimized vs (Some (int t)) = int (longest_run (map is_null_cell vs))"
    and "int t \<le> int (longest_run (map is_null_cell vs))"
proof -
  let ?m = "map is_null_cell vs"
  have ge: "t \<le> longest_run ?m" using assms by (rule longest_run_ge)
  then show "int t \<le> int (longest_run ?m)" by simp
  have "t \<le> length (filter id ?m)" using ge longest_run_le_total[of ?m] by linarith
  then show "check_consecutive_nans_optimized vs (Some (int t)) = int (longest_run ?m)"
    by (simp add: check_nans_value Let_def)
qed

lemma check_below_threshold:
  assumes "length (filter id (map is_null_cell vs)) < t"
  shows "check_consecutive_nans_optimized vs (Some (int t)) < int t"
  using assms by (simp add: check_nans_value Let_def)

lemma single_gap_run:
  assumes "vs = pre @ gap @ post" "list_all is_null_cell gap"
    "\<not> list_ex is_null_cell pre" "\<not> list_ex is_null_cell post"
  shows "is_longest_null_run (map is_null_cell vs) (length gap)"
proof -
  let ?m = "map is_null_cell vs"
  have "\<forall>j<length gap. ?m ! (length pre + j)"
    using assms(1,2) by (auto simp: nth_append list_all_length)
  moreover have "length pre + length gap \<le> length ?m" "length pre \<le> length ?m"
    using assms(1) by auto
  ultimately have run: "has_null_run ?m (length gap)" unfolding has_null_run_def by blast
  have "k \<le> length gap" if "has_null_run ?m k" for k
  proof -
    have "k \<le> longest_run ?m" using that by (rule longest_run_ge)
    also have "\<dots> \<le> length (filter id ?m)" by (rule longest_run_le_total)
    also have "\<dots> = length gap" using assms by (rule null_count_gap)
    finally show ?thesis .
  qed
  then show ?thesis using run unfolding is_longest_null_run_def by blast
qed

text \<open>
  C4.  Take a table with unique column labels, a column \<open>c\<close> of it, and a validator with
  gap threshold \<open>t\<close>.  If the column holds exactly \<open>t - 1\<close> consecutive nulls and no
  other null, \<open>validate\<close> returns no issue for \<open>c\<close>.  If the longest run of nulls in the
  column has length exactly \<open>t\<close> (in particular when the column holds exactly \<open>t\<close>
  consecutive nulls and no other), \<open>validate\<close> returns exactly one issue for \<open>c\<close>, which
  names the column and the run length \<open>t\<close>.
\<close>

theorem gap_threshold_boundary:
  assumes "distinct (column_names df)" "(c, vs) \<in> set (cols df)" "gap_threshold self = int t"
  shows "(vs = pre @ gap @ post \<and> length gap + 1 = t \<and> list_all is_null_cell gap
            \<and> \<not> list_ex is_null_cell pre \<and> \<not> list_ex is_null_cell post \<longrightarrow>
            filter (\<lambda>w. issue_column w = c) (validate self df source_name) = [])
       \<and> (vs = pre @ gap @ post \<and> length gap = t \<and> list_all is_null_cell gap
            \<and> \<not> list_ex is_null_cell pre \<and> \<not> list_ex is_null_cell post \<longrightarrow>
            filter (\<lambda>w. issue_column w = c) (validate self df source_name) = [GapIssue c (int t)])
       \<and> (is_longest_null_run (map is_null_cell vs) t \<longrightarrow>
            filter (\<lambda>w. issue_column w = c) (validate self df source_name) = [GapIssue c (int t)])"
proof -
  let ?iss = "filter (\<lambda>w. issue_column w = c) (validate self df source_name)"
  have col: "?iss = (if check_consecutive_nans_optimized vs (Some (int t)) \<ge> int t
          then [GapIssue c (check_consecutive_nans_optimized vs (Some (int t)))] else [])"
    unfolding validate_def assms(3)
    using assms(1,2) by (intro validate_column_issues) (simp_all add: column_names_def)
  have a: "?iss = []"
    if "vs = pre @ gap @ post" "length gap + 1 = t" "list_all is_null_cell gap"
       "\<not> list_ex is_null_cell pre" "\<not> list_ex is_null_cell post"
  proof -
    have "length (filter id (map is_null_cell vs)) = length gap"
      using that(1,3,4,5) by (rule null_count_gap)
    then have "check_consecutive_nans_optimized vs (Some (int t)) < int t"
      using that(2) by (intro check_below_threshold) simp
    then show ?thesis using col by simp
  qed
  have longest: "?iss = [GapIssue c (int t)]" if "is_longest_null_run (map is_null_cell vs) t"
  proof -
    have run: "has_null_run (map is_null_cell vs) t"
      using that unfolding is_longest_null_run_def by blast
    have "longest_run (map is_null_cell vs) = t" using that by (rule longest_run_unique)
    then have "check_consecutive_nans_optimized vs (Some (int t)) = int t"
      using check_at_least_threshold(1)[OF run] by simp
    then show ?thesis using col by simp
  qed
  have b: "?iss = [GapIssue c (int t)]"
    if "vs = pre @ gap @ post" "length gap = t" "list_all is_null_cell gap"
       "\<not> list_ex is_null_cell pre" "\<not> list_ex is_null_cell post"
    using longest single_gap_run[OF that(1,3,4,5)] that(2) by simp
  show ?thesis using a b longest by blast
qed

theorem gap_threshold_boundary_witness:
  "filter (\<lambda>w. issue_column w = ''smo2'')
     (validate (new_validator (Some 3) False False)
        \<lparr>nrows = 5, cols = [(''secs'', [Num 0, Num 1, Num 2, Num 3, Num 4]),
                            (''smo2'', [Num 65, Missing, Missing, Num 63, Num 62])]\<rparr>
        ''trainred'') = [] \<and>
   filter (\<lambda>w. issue_column w = ''smo2'')
     (validate (new_validator (Some 3) False False)
        \<lparr>nrows = 5, cols = [(''secs'', [Num 0, Num 1, Num 2, Num 3, Num 4]),
                            (''smo2'', [Num 65, Missing, Missing, Missing, Num 62])]\<rparr>
        ''trainred'') = [GapIssue ''smo2'' 3]"
proof -
  let ?v = "new_validator (Some 3) False False"
  let ?a = "\<lparr>nrows = 5, cols = [(''secs'', [Num 0, Num 1, Num 2, Num 3, Num 4]),
                            (''smo2'', [Num 65, Missing, Missing, Num 63, Num 62])]\<rparr>"
  let ?b = "\<lparr>nrows = 5, cols = [(''secs'', [Num 0, Num 1, Num 2, Num 3, Num 4]),
                            (''smo2'', [Num 65, Missing, Missing, Missing, Num 62])]\<rparr>"
  have t: "gap_threshold ?v = int 3" by (simp add: new_validator_def)
  have da: "distinct (column_names ?a)" and db: "distinct (column_names ?b)"
    by (simp_all add: column_names_def)
  have ma: "(''smo2'', [Num 65, Missing, Missing, Num 63, Num 62]) \<in> set (cols ?a)"
    and mb: "(''smo2'', [Num 65, Missing, Missing, Missing, Num 62]) \<in> set (cols ?b)"
    by simp_all
  have "filter (\<lambda>w. issue_column w = ''smo2'') (validate ?v ?a ''trainred'') = []"
    using gap_threshold_boundary[OF da ma t, of "[Num 65]" "[Missing, Missing]" "[Num 63, Num 62]"
        "''trainred''"]
    by (simp add: is_null_cell_def isna_def)
  moreover have "filter (\<lambda>w. issue_column w = ''smo2'') (validate ?v ?b ''trainred'')
       = [GapIssue ''smo2'' 3]"
    using gap_threshold_boundary[OF db mb t, of "[Num 65]" "[Missing, Missing, Missing]" "[Num 62]"
        "''trainred''"]
    by (simp add: is_null_cell_def isna_def)
  ultimately show ?thesis by blast
qed

lemma validate_timestamps_accumulate:
  assumes "\<not> fail_fast self" "map_of (cols df) time_column = Some column"
  shows "validate_timestamps parse self df time_column file_path True True True =
     Inr ((if count_true (map lt_zero (to_numeric parse column)) > 0
           then [NegativeTimes time_column (count_true (map lt_zero (to_numeric parse column)))]
           else [])
        @ (if count_true (map lt_zero (diff (to_numeric parse column))) > 0
           then [DecreasingTimes time_column
                   (count_true (map lt_zero (diff (to_numeric parse column))))
                   (first_true (map lt_zero (diff (to_numeric parse column))))]
           else [])
        @ (if count_true (duplicated (to_numeric parse column)) > 0
           then [DuplicateTimes time_column (count_true (duplicated (to_numeric parse column)))]
           else []))"
  using assms by (simp add: validate_timestamps_def Let_def)

lemma validate_timestamps_errors:
  assumes "validate_timestamps parse self df time_column file_path cm cd cn = Inl e"
  shows "fail_fast self \<and>
     (\<exists>d. e = TimestampError ''negative'' time_column file_path d
        \<or> e = TimestampError ''non_monotonic'' time_column file_path d)"
  using assms
  by (auto simp: validate_timestamps_def Let_def split: option.splits if_splits)

text \<open>
  C7.  With \<open>fail_fast\<close> enabled, a time column whose only defect is a duplicated value
  raises nothing: \<open>validate_timestamps\<close> returns the duplicate warning, where negative and
  decreasing values raise \<open>TimestampError\<close>.
\<close>

theorem duplicate_timestamps_never_raise:
  "validate_timestamps parse (new_validator None True False)
     \<lparr>nrows = 5, cols = [(''secs'', [Num 0, Num 1, Num 1, Num 2, Num 3])]\<rparr>
     ''secs'' None True True True
   = Inr [DuplicateTimes ''secs'' 1]"
  by (simp add: validate_timestamps_def new_validator_def to_numeric_def Let_def count_true_def
      lt_zero_def diff_def sub_opt_def duplicated_def first_true_def)

lemma negative_timestamps_raise:
  "validate_timestamps parse (new_validator None True False)
     \<lparr>nrows = 5, cols = [(''secs'', [Num (-2), Num (-1), Num 0, Num 1, Num 2])]\<rparr>
     ''secs'' None True True True
   = Inl (TimestampError ''negative'' ''secs'' None (NegativeCount 2))"
  by (simp add: validate_timestamps_def new_validator_def to_numeric_def Let_def count_true_def
      lt_zero_def)

lemma decreasing_timestamps_raise:
  "validate_timestamps parse (new_validator None True False)
     \<lparr>nrows = 6, cols = [(''secs'', [Num 0, Num 1, Num 2, Num 1, Num 3, Num 4])]\<rparr>
     ''secs'' (Some ''wahoo.csv'') True True True
   = Inl (TimestampError ''non_monotonic'' ''secs'' (Some ''wahoo.csv'') (DecreaseAtRow 3))"
  by (simp add: validate_timestamps_def new_validator_def to_numeric_def Let_def count_true_def
      lt_zero_def diff_def sub_opt_def first_true_def)

section \<open>interpolate\_time\_gaps: which nulls are filled\<close>

lemma ids_from_Nil: "ids_from p acc [] = []"
  by (simp add: ids_from_def)

lemma ids_from_Cons:
  "ids_from p acc (b # bs) =
     (acc + (if Some b \<noteq> p then 1 else 0)) # ids_from (Some b) (acc + (if Some b \<noteq> p then 1 else 0)) bs"
  by (simp add: ids_from_def Let_def)

lemma group_ids_from: "group_ids m = ids_from None 0 m"
  by (simp add: group_ids_def ids_from_def ne_shift_zip)

lemma length_ids_from: "length (ids_from p acc bs) = length bs"
  by (induction bs arbitrary: p acc) (simp_all add: ids_from_Nil ids_from_Cons)

lemma ids_from_lower: "x \<in> set (ids_from p acc bs) \<Longrightarrow> acc \<le> x"
proof (induction bs arbitrary: p acc)
  case Nil then show ?case by (simp add: ids_from_Nil)
next
  case (Cons b bs)
  let ?a = "acc + (if Some b \<noteq> p then 1 else 0)"
  from Cons.prems have "x = ?a \<or> x \<in> set (ids_from (Some b) ?a bs)"
    by (simp add: ids_from_Cons)
  then show ?case using Cons.IH[of "Some b" ?a] by auto
qed

lemma sorted_ids_from: "sorted (ids_from p acc bs)"
proof (induction bs arbitrary: p acc)
  case Nil then show ?case by (simp add: ids_from_Nil)
next
  case (Cons b bs)
  show ?case using Cons ids_from_lower by (auto simp: ids_from_Cons)
qed

lemma ids_from_same_as_prev:
  "i < length bs \<Longrightarrow> ids_from p acc bs ! i = acc \<Longrightarrow> Some (bs ! i) = p"
proof (induction bs arbitrary: p acc i)
  case Nil then show ?case by simp
next
  case (Cons b bs)
  let ?a = "acc + (if Some b \<noteq> p then 1 else 0)"
  show ?case
  proof (cases i)
    case 0
    then show ?thesis using Cons.prems by (auto simp: ids_from_Cons split: if_splits)
  next
    case (Suc j)
    then have j: "j < length bs" "ids_from (Some b) ?a bs ! j = acc"
      using Cons.prems by (simp_all add: ids_from_Cons)
    have "ids_from (Some b) ?a bs ! j \<in> set (ids_from (Some b) ?a bs)"
      using j(1) by (intro nth_mem) (simp add: length_ids_from)
    then have "?a \<le> ids_from (Some b) ?a bs ! j" by (rule ids_from_lower)
    then have "?a \<le> acc" using j(2) by simp
    then have a: "?a = acc" "Some b = p" by (auto split: if_splits)
    then have "Some (bs ! j) = Some b" using Cons.IH[of j "Some b" ?a] j by simp
    then show ?thesis using a Suc by simp
  qed
qed

lemma ids_from_functional:
  "i < j \<Longrightarrow> j < length bs \<Longrightarrow> ids_from p acc bs ! i = ids_from p acc bs ! j \<Longrightarrow> bs ! i = bs ! j"
proof (induction bs arbitrary: p acc i j)
  case Nil then show ?case by simp
next
  case (Cons b bs)
  let ?a = "acc + (if Some b \<noteq> p then 1 else 0)"
  obtain j' where j': "j = Suc j'" using Cons.prems(1) by (cases j) auto
  show ?case
  proof (cases i)
    case 0
    then have "ids_from (Some b) ?a bs ! j' = ?a" using Cons.prems j' by (simp add: ids_from_Cons)
    then have "Some (bs ! j') = Some b"
      using ids_from_same_as_prev[of j' bs "Some b" ?a] Cons.prems j' by simp
    then show ?thesis using 0 j' by simp
  next
    case (Suc i')
    then show ?thesis using Cons.prems j' Cons.IH[of i' j' "Some b" ?a]
      by (simp add: ids_from_Cons)
  qed
qed

lemma group_ids_functional:
  assumes "i < length m" "j < length m" "group_ids m ! i = group_ids m ! j"
  shows "m ! i = m ! j"
proof -
  consider "i < j" | "j < i" | "i = j" by linarith
  then show ?thesis
  proof cases
    case 1 then show ?thesis using assms ids_from_functional[of i j m None 0]
      by (simp add: group_ids_from)
  next
    case 2 then show ?thesis using assms ids_from_functional[of j i m None 0]
      by (simp add: group_ids_from)
  next
    case 3 then show ?thesis by simp
  qed
qed

lemma length_group_ids: "length (group_ids m) = length m"
  by (simp add: group_ids_from length_ids_from)

lemma sorted_group_ids: "sorted (group_ids m)"
  by (simp add: group_ids_from sorted_ids_from)

lemma count_list_map_filter: "count_list (map g xs) k = length (filter (\<lambda>x. g x = k) xs)"
  by (induction xs) auto

lemma count_list_positions: "length (filter (\<lambda>i. xs ! i = k) [0..<length xs]) = count_list xs k"
proof -
  have "count_list (map (\<lambda>i. xs ! i) [0..<length xs]) k
      = length (filter (\<lambda>i. xs ! i = k) [0..<length xs])"
    by (rule count_list_map_filter)
  then show ?thesis by (simp add: map_nth)
qed

lemma zip_as_map_upt:
  "length xs = length ys \<Longrightarrow> zip xs ys = map (\<lambda>i. (xs ! i, ys ! i)) [0..<length xs]"
  by (rule nth_equalityI) auto

lemma mask_select_positions:
  assumes "length xs = length m"
  shows "mask_select xs m = map (\<lambda>i. xs ! i) (filter (\<lambda>i. m ! i) [0..<length xs])"
  unfolding mask_select_def zip_as_map_upt[OF assms]
  by (simp add: filter_map comp_def)

lemma count_mask_select:
  assumes "length xs = length m"
  shows "count_list (mask_select xs m) k
     = length (filter (\<lambda>i. xs ! i = k \<and> m ! i) [0..<length xs])"
proof -
  have "(\<lambda>i. xs ! i = k \<and> m ! i) = (\<lambda>i. m ! i \<and> xs ! i = k)" by auto
  then show ?thesis
    unfolding mask_select_positions[OF assms] count_list_map_filter by simp
qed

text \<open>The positions of one group.\<close>

lemma group_positions:
  assumes k: "k \<in> set (group_ids m)"
  defines "pos \<equiv> filter (\<lambda>i. group_ids m ! i = k) [0..<length (group_ids m)]"
  shows "pos \<noteq> []" "hd pos < length m" "group_ids m ! hd pos = k"
    "last pos < length m" "group_ids m ! last pos = k" "hd pos \<le> last pos"
    "length pos = count_list (group_ids m) k"
proof -
  obtain i where i: "i < length (group_ids m)" "group_ids m ! i = k"
    using k by (auto simp: in_set_conv_nth)
  then have "i \<in> set pos" unfolding pos_def by simp
  then show ne: "pos \<noteq> []" by auto
  have h: "hd pos \<in> set pos" and l: "last pos \<in> set pos" using ne by simp_all
  show "hd pos < length m" "group_ids m ! hd pos = k"
    using h unfolding pos_def by (simp_all add: length_group_ids)
  show "last pos < length m" "group_ids m ! last pos = k"
    using l unfolding pos_def by (simp_all add: length_group_ids)
  have "sorted pos" unfolding pos_def by (simp add: sorted_wrt_filter)
  then show "hd pos \<le> last pos" using ne l
    by (metis list.exhaust_sel order_refl set_ConsD sorted_simps(2))
  show "length pos = count_list (group_ids m) k"
    unfolding pos_def by (rule count_list_positions)
qed

lemma true_group_count:
  assumes "i < length m" "m ! i"
  shows "count_list (mask_select (group_ids m) m) (group_ids m ! i)
       = count_list (group_ids m) (group_ids m ! i)"
proof -
  let ?ids = "group_ids m"
  have len: "length ?ids = length m" by (rule length_group_ids)
  have "filter (\<lambda>j. ?ids ! j = ?ids ! i \<and> m ! j) [0..<length ?ids]
      = filter (\<lambda>j. ?ids ! j = ?ids ! i) [0..<length ?ids]"
  proof (rule filter_cong[OF refl])
    fix j assume "j \<in> set [0..<length ?ids]"
    then have j: "j < length m" using len by simp
    show "(?ids ! j = ?ids ! i \<and> m ! j) = (?ids ! j = ?ids ! i)"
      using group_ids_functional[OF j assms(1)] assms(2) by auto
  qed
  then show ?thesis
    unfolding count_mask_select[OF len] by (simp add: count_list_positions)
qed

lemma consecutive_lengths_set:
  assumes "list_ex id m"
  shows "set (get_consecutive_lengths m)
     = count_list (mask_select (group_ids m) m) ` set (mask_select (group_ids m) m)"
proof -
  let ?ids = "group_ids m"
  let ?nids = "mask_select ?ids m"
  let ?P = "\<lambda>k. filter (\<lambda>i. ?ids ! i = k) [0..<length ?ids]"
  have len: "length ?ids = length m" by (rule length_group_ids)
  have L: "get_consecutive_lengths m
      = map (\<lambda>k. length (?P k)) (filter (\<lambda>k. m ! hd (?P k)) (sort (remdups ?ids)))"
    using assms unfolding get_consecutive_lengths_def groupby_positions_def
    by (simp add: filter_map comp_def)
  have nids: "set ?nids = {?ids ! i | i. i < length m \<and> m ! i}"
    unfolding mask_select_positions[OF len] using len by auto
  show ?thesis
  proof (rule set_eqI, rule iffI)
    fix n assume "n \<in> set (get_consecutive_lengths m)"
    then obtain k where k: "k \<in> set ?ids" "m ! hd (?P k)" "n = length (?P k)"
      unfolding L by auto
    note g = group_positions[OF k(1)]
    have "\<exists>i. k = ?ids ! i \<and> i < length m \<and> m ! i"
      using g(2,3) k(2) by (intro exI[of _ "hd (?P k)"]) simp
    then have "k \<in> set ?nids" unfolding nids by blast
    moreover have "count_list ?nids k = n"
      using true_group_count[OF g(2) k(2)] g(3) g(7) k(3) by simp
    ultimately show "n \<in> count_list ?nids ` set ?nids" by blast
  next
    fix n assume "n \<in> count_list ?nids ` set ?nids"
    then obtain i where i: "i < length m" "m ! i" "n = count_list ?nids (?ids ! i)"
      unfolding nids by auto
    let ?k = "?ids ! i"
    have kin: "?k \<in> set ?ids" using i(1) len by simp
    note g = group_positions[OF kin]
    have "m ! hd (?P ?k)" using group_ids_functional[OF g(2) i(1)] g(3) i(2) by simp
    moreover have "n = length (?P ?k)" using true_group_count[OF i(1,2)] i(3) g(7) by simp
    ultimately show "n \<in> set (get_consecutive_lengths m)" unfolding L using kin by auto
  qed
qed

lemma max_consecutive_lengths:
  assumes "list_ex id m"
  shows "max_nat_list (get_consecutive_lengths m) = longest_run m"
proof -
  have "max_nat_list (get_consecutive_lengths m) = maxc (mask_select (group_ids m) m)"
    unfolding max_nat_list_Max maxc_def consecutive_lengths_set[OF assms] ..
  also have "\<dots> = longest_run m"
    by (simp add: group_ids_def ne_shift_zip null_ids_link maxc_null_ids)
  finally show ?thesis .
qed

lemma consecutive_lengths_nonempty:
  assumes "list_ex id m"
  shows "get_consecutive_lengths m \<noteq> []"
proof -
  obtain i where i: "i < length m" "m ! i" using assms by (auto simp: list_ex_iff in_set_conv_nth)
  have len: "length (group_ids m) = length m" by (rule length_group_ids)
  have "group_ids m ! i \<in> set (mask_select (group_ids m) m)"
    unfolding mask_select_positions[OF len] using i len by auto
  then have "set (get_consecutive_lengths m) \<noteq> {}"
    unfolding consecutive_lengths_set[OF assms] by auto
  then show ?thesis by auto
qed

lemma ffill_all_missing: "ffill_from limit Missing k (replicate n Missing) = replicate n Missing"
  by (induction n arbitrary: k) simp_all

lemma linear_all_missing: "linear_from limit Missing k (replicate n Missing) = replicate n Missing"
  by (induction n arbitrary: k) simp_all

lemma all_missing_replicate:
  "(\<And>x. x \<in> set seg \<Longrightarrow> x = Missing) \<Longrightarrow> seg = replicate (length seg) Missing"
  by (induction seg) auto

lemma slice_put_back:
  "s \<le> Suc e \<Longrightarrow> take s vs @ take (Suc e - s) (drop s vs) @ drop (Suc e) vs = vs"
proof -
  assume h: "s \<le> Suc e"
  have "drop (Suc e) vs = drop (Suc e - s) (drop s vs)" using h by simp
  then show ?thesis by (metis append_take_drop_id)
qed

lemma fill_slice_all_missing:
  assumes "s \<le> e" "e < length vs" "\<And>i. s \<le> i \<Longrightarrow> i \<le> e \<Longrightarrow> vs ! i = Missing"
    "method = Linear \<longrightarrow> numeric"
  shows "fill_slice method numeric vs s e = Inr vs"
proof -
  let ?seg = "take (Suc e - s) (drop s vs)"
  have "x = Missing" if "x \<in> set ?seg" for x
  proof -
    from that obtain j where j: "j < length ?seg" "?seg ! j = x" by (auto simp: in_set_conv_nth)
    then have "j < Suc e - s" by simp
    then have "x = vs ! (s + j)" "s \<le> s + j" "s + j \<le> e" using j assms(1,2) by auto
    then show ?thesis using assms(3) by simp
  qed
  then have seg: "?seg = replicate (length ?seg) Missing" by (rule all_missing_replicate)
  have f: "pd_ffill None ?seg = ?seg"
    unfolding pd_ffill_def by (subst (1 2) seg) (simp add: ffill_all_missing)
  have b: "pd_bfill None ?seg = ?seg"
    unfolding pd_bfill_def pd_ffill_def by (subst (1 2) seg) (simp add: ffill_all_missing)
  have l: "linear_from None Missing 0 ?seg = ?seg"
    by (subst (1 2) seg) (simp add: linear_all_missing)
  have put: "take s vs @ ?seg @ drop (Suc e) vs = vs"
    using assms(1) by (intro slice_put_back) simp
  show ?thesis
    using assms(4) f b l put
    by (cases "method") (simp_all add: fill_slice_def Let_def pd_interpolate_linear_def)
qed

lemma true_group_slice:
  assumes "(k, pos) \<in> set (groupby_positions (group_ids (map isna vs)))"
    "map isna vs ! hd pos"
  shows "hd pos \<le> last pos" "last pos < length vs"
    "\<And>i. hd pos \<le> i \<Longrightarrow> i \<le> last pos \<Longrightarrow> vs ! i = Missing"
proof -
  let ?m = "map isna vs"
  let ?ids = "group_ids ?m"
  from assms(1) have k: "k \<in> set ?ids"
    and pos: "pos = filter (\<lambda>i. ?ids ! i = k) [0..<length ?ids]"
    unfolding groupby_positions_def by auto
  note g = group_positions[OF k, folded pos]
  show "hd pos \<le> last pos" by (rule g(6))
  show l: "last pos < length vs" using g(4) by simp
  fix i assume i: "hd pos \<le> i" "i \<le> last pos"
  have il: "i < length ?m" using i l by simp
  have len: "length ?ids = length ?m" by (rule length_group_ids)
  have "?ids ! hd pos \<le> ?ids ! i"
    using sorted_group_ids[of ?m] i(1) il len by (intro sorted_nth_mono) simp_all
  moreover have "?ids ! i \<le> ?ids ! last pos"
    using sorted_group_ids[of ?m] i(2) g(4) len by (intro sorted_nth_mono) simp_all
  ultimately have "?ids ! i = ?ids ! hd pos" using g(3,5) by simp
  then have "?m ! i = ?m ! hd pos" using group_ids_functional[OF il g(2)] by simp
  then have "isna (vs ! i)" using assms(2) il by simp
  then show "vs ! i = Missing" by (simp add: isna_def)
qed

lemma small_gaps_loop_id:
  assumes "set gs \<subseteq> set (groupby_positions (group_ids (map isna vs)))"
    "method = Linear \<longrightarrow> numeric"
  shows "small_gaps_loop method max_gap numeric (map isna vs) gs vs = Inr vs"
  using assms(1)
proof (induction gs)
  case Nil then show ?case by simp
next
  case (Cons g gs)
  obtain k pos where g: "g = (k, pos)" by (cases g)
  have rest: "small_gaps_loop method max_gap numeric (map isna vs) gs vs = Inr vs"
    using Cons by simp
  show ?case
  proof (cases "map isna vs ! hd pos")
    case False
    then show ?thesis using g rest by simp
  next
    case True
    have mem: "(k, pos) \<in> set (groupby_positions (group_ids (map isna vs)))"
      using Cons.prems g by simp
    have "fill_slice method numeric vs (hd pos) (last pos) = Inr vs"
      using true_group_slice[OF mem True] assms(2) by (intro fill_slice_all_missing)
    then show ?thesis using g rest True by (simp add: Let_def)
  qed
qed

lemma interpolate_small_gaps_id:
  "method = Linear \<longrightarrow> numeric_column vs \<Longrightarrow> interpolate_small_gaps vs max_gap method = Inr vs"
  unfolding interpolate_small_gaps_def Let_def
  using small_gaps_loop_id[of "groupby_positions (group_ids (map isna vs))" vs "method"
           "numeric_column vs" max_gap]
  by simp

lemma lead_le_longest_run: "length (takeWhile id m) \<le> longest_run m"
  by (cases m) auto

lemma longest_run_tail: "longest_run bs \<le> longest_run (b # bs)"
  by simp

lemma length_ffill_from: "length (ffill_from limit prev k xs) = length xs"
  by (induction limit prev k xs rule: ffill_from.induct) simp_all

lemma length_linear_from: "length (linear_from limit prev k xs) = length xs"
  by (induction limit prev k xs rule: linear_from.induct) simp_all

lemma lerp_not_missing: "prev \<noteq> Missing \<Longrightarrow> lerp prev v i n \<noteq> Missing"
  by (cases "(prev, v, i, n)" rule: lerp.cases) auto

lemma ffill_no_missing:
  "prev \<noteq> Missing \<Longrightarrow> k + length (takeWhile isna xs) \<le> l \<Longrightarrow>
   longest_run (map isna xs) \<le> l \<Longrightarrow> Missing \<notin> set (ffill_from (Some l) prev k xs)"
proof (induction xs arbitrary: prev k)
  case Nil then show ?case by simp
next
  case (Cons c xs)
  have tail: "longest_run (map isna xs) \<le> l" using Cons.prems(3) longest_run_tail
    by (metis list.simps(9) order_trans)
  show ?case
  proof (cases "c = Missing")
    case True
    have "isna Missing" by (simp add: isna_def)
    then have k: "Suc k + length (takeWhile isna xs) \<le> l" using Cons.prems(2) True
      by simp
    then have "Missing \<notin> set (ffill_from (Some l) prev (Suc k) xs)"
      using Cons.IH[OF Cons.prems(1) _ tail] by simp
    then show ?thesis using True k Cons.prems(1) by (simp add: within_limit_def)
  next
    case False
    have "length (takeWhile isna xs) \<le> longest_run (map isna xs)"
      using lead_le_longest_run[of "map isna xs"] by (simp add: takeWhile_map comp_def)
    then have "0 + length (takeWhile isna xs) \<le> l" using tail by simp
    then have "Missing \<notin> set (ffill_from (Some l) c 0 xs)"
      using Cons.IH[OF False _ tail] by simp
    then show ?thesis using False by (cases c) simp_all
  qed
qed

lemma linear_no_missing:
  "prev \<noteq> Missing \<Longrightarrow> k + length (takeWhile isna xs) \<le> l \<Longrightarrow>
   longest_run (map isna xs) \<le> l \<Longrightarrow> Missing \<notin> set (linear_from (Some l) prev k xs)"
proof (induction xs arbitrary: prev k)
  case Nil then show ?case by simp
next
  case (Cons c xs)
  have tail: "longest_run (map isna xs) \<le> l" using Cons.prems(3) longest_run_tail
    by (metis list.simps(9) order_trans)
  show ?case
  proof (cases "c = Missing")
    case True
    have "isna Missing" by (simp add: isna_def)
    then have k: "Suc k + length (takeWhile isna xs) \<le> l" using Cons.prems(2) True
      by simp
    then have "Missing \<notin> set (linear_from (Some l) prev (Suc k) xs)"
      using Cons.IH[OF Cons.prems(1) _ tail] by simp
    moreover have "\<And>v i n. Missing \<noteq> lerp prev v i n"
      using lerp_not_missing[OF Cons.prems(1)] by metis
    ultimately show ?thesis using True k Cons.prems(1)
      by (auto simp: within_limit_def split: option.splits)
  next
    case False
    have "length (takeWhile isna xs) \<le> longest_run (map isna xs)"
      using lead_le_longest_run[of "map isna xs"] by (simp add: takeWhile_map comp_def)
    then have "0 + length (takeWhile isna xs) \<le> l" using tail by simp
    then have "Missing \<notin> set (linear_from (Some l) c 0 xs)"
      using Cons.IH[OF False _ tail] by simp
    then show ?thesis using False by (cases c) simp_all
  qed
qed

lemma has_null_run_rev: "has_null_run (rev m) n \<Longrightarrow> has_null_run m n"
proof -
  assume "has_null_run (rev m) n"
  then obtain i where i: "i + n \<le> length m" "\<forall>j<n. rev m ! (i + j)"
    unfolding has_null_run_def by auto
  let ?i = "length m - (i + n)"
  have "m ! (?i + j)" if j: "j < n" for j
  proof -
    have "n - Suc j < n" using j by simp
    then have "rev m ! (i + (n - Suc j))" using i(2) by blast
    moreover have "i + (n - Suc j) < length m" using i(1) j by simp
    ultimately have "m ! (length m - Suc (i + (n - Suc j)))" by (simp add: rev_nth)
    moreover have "length m - Suc (i + (n - Suc j)) = ?i + j" using i(1) j by simp
    ultimately show ?thesis by simp
  qed
  moreover have "?i \<le> length m" "?i + n \<le> length m" using i(1) by simp_all
  ultimately show ?thesis unfolding has_null_run_def by blast
qed

lemma longest_run_rev: "longest_run (rev m) = longest_run m"
proof (rule antisym)
  show "longest_run (rev m) \<le> longest_run m"
    using longest_run_has[of "rev m"] has_null_run_rev longest_run_ge by blast
  have "has_null_run (rev (rev m)) (longest_run m)" using longest_run_has[of m] by simp
  then show "longest_run m \<le> longest_run (rev m)"
    using has_null_run_rev[of "rev m"] longest_run_ge by blast
qed

lemma pd_ffill_complete:
  assumes "vs \<noteq> []" "hd vs \<noteq> Missing" "longest_run (map isna vs) \<le> l"
  shows "count_na (pd_ffill (Some l) vs) = 0"
proof -
  obtain c xs where vs: "vs = c # xs" using assms(1) by (cases vs) auto
  have c: "c \<noteq> Missing" using assms(2) vs by simp
  have tail: "longest_run (map isna xs) \<le> l" using assms(3) vs c by (simp add: isna_def)
  have "length (takeWhile isna xs) \<le> longest_run (map isna xs)"
    using lead_le_longest_run[of "map isna xs"] by (simp add: takeWhile_map comp_def)
  then have "Missing \<notin> set (ffill_from (Some l) c 0 xs)"
    using tail by (intro ffill_no_missing[OF c]) simp_all
  then have "Missing \<notin> set (pd_ffill (Some l) vs)"
    unfolding pd_ffill_def vs using c by (cases c) simp_all
  then show ?thesis by (auto simp: count_na_def isna_def filter_empty_conv)
qed

lemma linear_complete:
  assumes "vs \<noteq> []" "hd vs \<noteq> Missing" "longest_run (map isna vs) \<le> l"
  shows "count_na (linear_from (Some l) Missing 0 vs) = 0"
proof -
  obtain c xs where vs: "vs = c # xs" using assms(1) by (cases vs) auto
  have c: "c \<noteq> Missing" using assms(2) vs by simp
  have tail: "longest_run (map isna xs) \<le> l" using assms(3) vs c by (simp add: isna_def)
  have "length (takeWhile isna xs) \<le> longest_run (map isna xs)"
    using lead_le_longest_run[of "map isna xs"] by (simp add: takeWhile_map comp_def)
  then have "Missing \<notin> set (linear_from (Some l) c 0 xs)"
    using tail by (intro linear_no_missing[OF c]) simp_all
  then have "Missing \<notin> set (linear_from (Some l) Missing 0 vs)"
    unfolding vs using c by (cases c) simp_all
  then show ?thesis by (auto simp: count_na_def isna_def filter_empty_conv)
qed

lemma pd_bfill_complete:
  assumes "vs \<noteq> []" "last vs \<noteq> Missing" "longest_run (map isna vs) \<le> l"
  shows "count_na (pd_bfill (Some l) vs) = 0"
proof -
  have "longest_run (map isna (rev vs)) \<le> l"
    using assms(3) longest_run_rev[of "map isna vs"] by (simp add: rev_map)
  then have "count_na (pd_ffill (Some l) (rev vs)) = 0"
    using assms(1,2) by (intro pd_ffill_complete) (simp_all add: hd_rev)
  then show ?thesis by (simp add: pd_bfill_def count_na_def rev_filter[symmetric])
qed

lemmas interp_eval =
  interpolate_time_gaps_def interpolate_column_def get_consecutive_lengths_def
  groupby_positions_def group_ids_def ne_shift_def shift_down_def check_limit_def
  pd_interpolate_linear_def numeric_column_def count_na_def isna_def max_nat_list_def
  set_column_def within_limit_def Let_def pd_ffill_def pd_bfill_def
  interpolate_small_gaps_def fill_slice_def

lemma interpolate_example_small_gap: "interpolate_time_gaps
     \<lparr>nrows = 5, cols = [(''secs'', [Num 0, Num 1, Num 2, Num 3, Num 4]),
                         (''watts'', [Num 100, Missing, Missing, Num 160, Num 170])]\<rparr>
     ''secs'' Linear 3 None
   = Inr (\<lparr>nrows = 5, cols = [(''secs'', [Num 0, Num 1, Num 2, Num 3, Num 4]),
                         (''watts'', [Num 100, Num 120, Num 140, Num 160, Num 170])]\<rparr>, 2)"
  by (simp add: interp_eval)

lemma interpolate_example_large_gap: "interpolate_time_gaps
     \<lparr>nrows = 6, cols = [(''secs'', [Num 0, Num 1, Num 2, Num 3, Num 4, Num 5]),
                         (''watts'', [Num 100, Missing, Missing, Missing, Missing, Num 170])]\<rparr>
     ''secs'' Linear 3 None
   = Inr (\<lparr>nrows = 6, cols = [(''secs'', [Num 0, Num 1, Num 2, Num 3, Num 4, Num 5]),
                         (''watts'', [Num 100, Missing, Missing, Missing, Missing, Num 170])]\<rparr>, 0)"
  by (simp add: interp_eval)

lemma count_na_list_ex: "0 < count_na vs \<Longrightarrow> list_ex id (map isna vs)"
  by (auto simp: count_na_def list_ex_iff filter_empty_conv)

lemma longest_run_pos: "list_ex id m \<Longrightarrow> 0 < longest_run m"
  by (induction m) auto

lemma interpolate_column_filled:
  assumes "method = Linear \<longrightarrow> numeric_column vs" "0 < count_na vs"
  shows "interpolate_column method max_gap vs = Inr (filled_column method max_gap vs)"
proof -
  let ?m = "map isna vs"
  have ex: "list_ex id ?m" using assms(2) by (rule count_na_list_ex)
  have ne: "get_consecutive_lengths ?m \<noteq> []" using ex by (rule consecutive_lengths_nonempty)
  have mx: "max_nat_list (get_consecutive_lengths ?m) = longest_run ?m"
    using ex by (rule max_consecutive_lengths)
  show ?thesis
  proof (cases "int (longest_run ?m) \<le> max_gap")
    case True
    have "0 < max_gap" using True longest_run_pos[OF ex] by linarith
    then have lim: "check_limit max_gap = Inr (Some (nat max_gap))" by (simp add: check_limit_def)
    show ?thesis
      using True ne mx lim assms
      by (cases "method")
         (simp_all add: interpolate_column_def filled_column_def Let_def pd_interpolate_linear_def)
  next
    case False
    then show ?thesis
      using ne mx assms interpolate_small_gaps_id[of "method" vs max_gap]
      by (simp add: interpolate_column_def filled_column_def Let_def)
  qed
qed

lemma length_filled_column: "length (filled_column method max_gap vs) = length vs"
  by (cases "method")
     (simp_all add: filled_column_def length_linear_from pd_ffill_def pd_bfill_def
        length_ffill_from)

lemma map_of_distinct_mem:
  "distinct (map fst xs) \<Longrightarrow> (c, v) \<in> set xs \<Longrightarrow> map_of xs c = Some v"
  by simp

lemma set_column_as_map:
  assumes "distinct (map fst cs)" "map_of cs col = Some vs"
  shows "map (\<lambda>(c, v). if c = col then (c, f vs) else (c, v)) cs
       = map (\<lambda>(c, v). if c = col then (c, f v) else (c, v)) cs"
proof (rule map_cong[OF refl])
  fix x assume x: "x \<in> set cs"
  obtain c v where cv: "x = (c, v)" by (cases x)
  have "c = col \<Longrightarrow> v = vs" using assms x cv by (metis map_of_distinct_mem option.inject)
  then show "(case x of (c, v) \<Rightarrow> if c = col then (c, f vs) else (c, v))
      = (case x of (c, v) \<Rightarrow> if c = col then (c, f v) else (c, v))"
    using cv by auto
qed

lemma map_of_update_other:
  "c \<noteq> col \<Longrightarrow>
   map_of (map (\<lambda>(c, v). if c = col then (c, f v) else (c, v)) xs) c = map_of xs c"
  by (induction xs) auto

lemma interp_loop_result:
  assumes "distinct (map fst (cols df))" "distinct cs"
    "\<forall>c\<in>set cs. \<forall>vs. map_of (cols df) c = Some vs \<longrightarrow> method = Linear
        \<longrightarrow> numeric_column vs"
  shows "\<exists>tot'. interp_loop method max_gap cs df tot =
     Inr (df\<lparr>cols := map (\<lambda>(c, v). if c \<in> set cs then (c, filled_column method max_gap v)
                                   else (c, v)) (cols df)\<rparr>, tot')"
  using assms
proof (induction cs arbitrary: df tot)
  case Nil
  then show ?case by (simp add: case_prod_unfold)
next
  case (Cons col rest)
  let ?F = "filled_column method max_gap"
  have rest_distinct: "distinct rest" and notin: "col \<notin> set rest" using Cons.prems(2) by simp_all
  show ?case
  proof (cases "map_of (cols df) col")
    case None
    then have "col \<notin> fst ` set (cols df)" by (simp add: map_of_eq_None_iff)
    then have same: "map (\<lambda>(c, v). if c \<in> set (col # rest) then (c, ?F v) else (c, v)) (cols df)
        = map (\<lambda>(c, v). if c \<in> set rest then (c, ?F v) else (c, v)) (cols df)"
      by (intro map_cong[OF refl]) force
    obtain t where "interp_loop method max_gap rest df tot =
       Inr (df\<lparr>cols := map (\<lambda>(c, v). if c \<in> set rest then (c, ?F v) else (c, v)) (cols df)\<rparr>, t)"
      using Cons.IH[OF Cons.prems(1) rest_distinct, of tot] Cons.prems(3) by auto
    then show ?thesis using None same by simp
  next
    case (Some vs)
    let ?df1 = "set_column df col (?F vs)"
    have cols1: "cols ?df1 = map (\<lambda>(c, v). if c = col then (c, ?F v) else (c, v)) (cols df)"
      unfolding set_column_def using set_column_as_map[OF Cons.prems(1) Some, of ?F] by simp
    have names1: "map fst (cols ?df1) = map fst (cols df)"
      unfolding cols1 by (simp add: case_prod_unfold comp_def)
    have d1: "distinct (map fst (cols ?df1))" using Cons.prems(1) names1 by simp
    have mo: "map_of (cols ?df1) c = map_of (cols df) c" if "c \<noteq> col" for c
      unfolding cols1 using that by (rule map_of_update_other)
    have num1: "\<forall>c\<in>set rest. \<forall>v. map_of (cols ?df1) c = Some v \<longrightarrow> method = Linear
        \<longrightarrow> numeric_column v"
    proof (intro ballI allI impI)
      fix c v assume c: "c \<in> set rest" "map_of (cols ?df1) c = Some v" "method = Linear"
      then have "c \<noteq> col" using notin by auto
      then have "map_of (cols df) c = Some v" using mo c(2) by simp
      then show "numeric_column v" using Cons.prems(3) c(1,3) by simp
    qed
    have comp: "map (\<lambda>(c, v). if c \<in> set rest then (c, ?F v) else (c, v)) (cols ?df1)
        = map (\<lambda>(c, v). if c \<in> set (col # rest) then (c, ?F v) else (c, v)) (cols df)"
      unfolding cols1 map_map using notin by (intro map_cong[OF refl]) auto
    have upd: "?df1\<lparr>cols := map (\<lambda>(c, v). if c \<in> set rest then (c, ?F v) else (c, v)) (cols ?df1)\<rparr>
        = df\<lparr>cols := map (\<lambda>(c, v). if c \<in> set (col # rest) then (c, ?F v) else (c, v)) (cols df)\<rparr>"
      unfolding comp by (simp add: set_column_def)
    show ?thesis
    proof (cases "count_na vs = 0")
      case True
      then have fv: "?F vs = vs" by (simp add: filled_column_def)
      have "?df1 = df"
        unfolding set_column_def fv
        using set_column_as_map[OF Cons.prems(1) Some, of "\<lambda>v. v"]
        by (simp add: case_prod_unfold map_idI)
      then have upd': "df\<lparr>cols := map (\<lambda>(c, v). if c \<in> set rest then (c, ?F v) else (c, v)) (cols df)\<rparr>
        = df\<lparr>cols := map (\<lambda>(c, v). if c \<in> set (col # rest) then (c, ?F v) else (c, v)) (cols df)\<rparr>"
        using upd by simp
      obtain t where "interp_loop method max_gap rest df tot =
         Inr (df\<lparr>cols := map (\<lambda>(c, v). if c \<in> set rest then (c, ?F v) else (c, v)) (cols df)\<rparr>, t)"
        using Cons.IH[OF Cons.prems(1) rest_distinct, of tot] Cons.prems(3) by auto
      then show ?thesis using Some True upd' by simp
    next
      case False
      have numv: "method = Linear \<longrightarrow> numeric_column vs"
        using Cons.prems(3) Some by simp
      have ic: "interpolate_column method max_gap vs = Inr (?F vs)"
        using numv False by (intro interpolate_column_filled) simp_all
      obtain t where "interp_loop method max_gap rest ?df1
            (tot + (int (count_na vs) - int (count_na (?F vs)))) =
         Inr (?df1\<lparr>cols := map (\<lambda>(c, v). if c \<in> set rest then (c, ?F v) else (c, v)) (cols ?df1)\<rparr>, t)"
        using Cons.IH[OF d1 rest_distinct num1] by blast
      then show ?thesis using Some False ic upd by (simp add: Let_def)
    qed
  qed
qed

lemma distinct_map_fst_filter: "distinct (map fst xs) \<Longrightarrow> distinct (map fst (filter P xs))"
  by (induction xs) force+

lemma filled_column_complete:
  assumes "int (longest_run (map isna vs)) \<le> g" "vs \<noteq> []"
    "if method = Bfill then last vs \<noteq> Missing else hd vs \<noteq> Missing"
    "method \<noteq> MethodNone"
  shows "count_na (filled_column method g vs) = 0"
proof (cases "count_na vs = 0")
  case True
  then show ?thesis by (simp add: filled_column_def)
next
  case False
  have l: "longest_run (map isna vs) \<le> nat g" using assms(1) by linarith
  show ?thesis
    using False assms l
    by (cases "method")
       (simp_all add: filled_column_def linear_complete pd_ffill_complete pd_bfill_complete)
qed

lemma filled_column_long_run:
  assumes "has_null_run (map isna vs) r" "g < int r"
  shows "filled_column method g vs = vs" "r \<le> count_na vs"
proof -
  have ge: "r \<le> longest_run (map isna vs)" using assms(1) by (rule longest_run_ge)
  then have "\<not> int (longest_run (map isna vs)) \<le> g" using assms(2) by linarith
  then show "filled_column method g vs = vs" by (simp add: filled_column_def)
  have "longest_run (map isna vs) \<le> length (filter id (map isna vs))"
    by (rule longest_run_le_total)
  then show "r \<le> count_na vs" using ge by (simp add: count_na_def filter_map comp_def)
qed

lemma run_has_null_run:
  assumes "i + r \<le> length vs" "\<forall>j<r. isna (vs ! (i + j))"
  shows "has_null_run (map isna vs) r"
proof -
  have "\<forall>j<r. map isna vs ! (i + j)" using assms by simp
  moreover have "i \<le> length (map isna vs)" "i + r \<le> length (map isna vs)" using assms(1) by simp_all
  ultimately show ?thesis unfolding has_null_run_def by blast
qed

lemma run_count_all:
  assumes "\<forall>j<r. isna (vs ! (i + j))"
  shows "length (filter (\<lambda>j. isna (vs ! (i + j))) [0..<r]) = r"
proof -
  have "filter (\<lambda>j. isna (vs ! (i + j))) [0..<r] = [0..<r]"
    using assms by (simp add: filter_id_conv)
  then show ?thesis by simp
qed

text \<open>
  C5 (as amended).  Take a table with unique column labels, a numeric column of it and a
  bound \<open>g\<close>; the call succeeds and keeps the column's length.  If the fill is not
  \<open>none\<close>, the column is not the time column, its longest run of nulls has length at
  most \<open>g\<close> and it starts with a value (for \<open>bfill\<close>: ends with a value), no null is
  left in it.  If \<open>g \<ge> 0\<close> and rows \<open>i, ..., i + r - 1\<close> of the column are \<open>r > g\<close>
  nulls, at least \<open>r - g\<close> of these rows are still null afterwards.
\<close>

theorem interpolate_bounded_gaps:
  assumes "distinct (column_names df)" "(c, vs) \<in> set (cols df)" "numeric_column vs"
  shows "\<exists>df' n vs'.
           interpolate_time_gaps df time_col fill_method g None = Inr (df', n)
         \<and> map_of (cols df') c = Some vs' \<and> length vs' = length vs
         \<and> (fill_method \<noteq> MethodNone \<and> c \<noteq> time_col
              \<and> int (longest_run (map isna vs)) \<le> g \<and> vs \<noteq> []
              \<and> (if fill_method = Bfill then last vs \<noteq> Missing else hd vs \<noteq> Missing)
              \<longrightarrow> count_na vs' = 0)
         \<and> (0 \<le> g \<and> i + r \<le> length vs \<and> (\<forall>j<r. isna (vs ! (i + j))) \<and> g < int r
              \<longrightarrow> int r - g \<le> int (length (filter (\<lambda>j. isna (vs' ! (i + j))) [0..<r])))"
proof -
  let ?F = "filled_column fill_method g"
  have d: "distinct (map fst (cols df))" using assms(1) by (simp add: column_names_def)
  have look0: "map_of (cols df) c = Some vs" using d assms(2) by simp
  have "\<exists>df' n vs'. interpolate_time_gaps df time_col fill_method g None = Inr (df', n)
        \<and> map_of (cols df') c = Some vs'
        \<and> (vs' = vs \<or> (vs' = ?F vs \<and> fill_method \<noteq> MethodNone))
        \<and> (fill_method \<noteq> MethodNone \<and> c \<noteq> time_col \<longrightarrow> vs' = ?F vs)"
  proof (cases "fill_method = MethodNone")
    case True
    then show ?thesis using look0 by (simp add: interpolate_time_gaps_def)
  next
    case False
    let ?cs = "filter (\<lambda>c. c \<noteq> time_col)
                 (map fst (filter (\<lambda>(c, vs). numeric_column vs) (cols df)))"
    have dcs: "distinct ?cs" using d by (intro distinct_filter distinct_map_fst_filter)
    have num: "\<forall>c\<in>set ?cs. \<forall>v. map_of (cols df) c = Some v \<longrightarrow> fill_method = Linear
          \<longrightarrow> numeric_column v"
    proof (intro ballI allI impI)
      fix c' v assume c': "c' \<in> set ?cs" "map_of (cols df) c' = Some v"
      then obtain v' where v': "(c', v') \<in> set (cols df)" "numeric_column v'" by auto
      then have "map_of (cols df) c' = Some v'" using d by simp
      then show "numeric_column v" using c'(2) v'(2) by simp
    qed
    let ?df' = "df\<lparr>cols := map (\<lambda>(c, v). if c \<in> set ?cs then (c, ?F v) else (c, v)) (cols df)\<rparr>"
    obtain n where res: "interp_loop fill_method g ?cs df 0 = Inr (?df', n)"
      using interp_loop_result[OF d dcs num, of g 0] by blast
    have run: "interpolate_time_gaps df time_col fill_method g None = Inr (?df', n)"
      using False res by (simp add: interpolate_time_gaps_def Let_def)
    have dd: "distinct (map fst (cols ?df'))"
      using d by (simp add: case_prod_unfold comp_def if_distrib[of fst] cong: if_cong)
    show ?thesis
    proof (cases "c \<in> set ?cs")
      case True
      have "(c, ?F vs) \<in> set (cols ?df')" using assms(2) True by force
      then have "map_of (cols ?df') c = Some (?F vs)" using dd by simp
      then show ?thesis using run False by blast
    next
      case out: False
      have "(\<lambda>(c, v). if c \<in> set ?cs then (c, ?F v) else (c, v)) (c, vs) = (c, vs)"
        using out by (simp only: prod.case if_False)
      then have "(c, vs) \<in> (\<lambda>(c, v). if c \<in> set ?cs then (c, ?F v) else (c, v)) ` set (cols df)"
        using assms(2) by (metis (no_types, lifting) image_eqI)
      then have "(c, vs) \<in> set (cols ?df')" by simp
      then have l: "map_of (cols ?df') c = Some vs" using dd by simp
      have "c = time_col" using out assms(2,3) by force
      then show ?thesis using run l by blast
    qed
  qed
  then obtain df' n vs' where r:
    "interpolate_time_gaps df time_col fill_method g None = Inr (df', n)"
    "map_of (cols df') c = Some vs'"
    "vs' = vs \<or> (vs' = ?F vs \<and> fill_method \<noteq> MethodNone)"
    "fill_method \<noteq> MethodNone \<and> c \<noteq> time_col \<longrightarrow> vs' = ?F vs"
    by blast
  have len: "length vs' = length vs" using r(3) length_filled_column by auto
  have full: "count_na vs' = 0"
    if "fill_method \<noteq> MethodNone" "c \<noteq> time_col" "int (longest_run (map isna vs)) \<le> g" "vs \<noteq> []"
       "if fill_method = Bfill then last vs \<noteq> Missing else hd vs \<noteq> Missing"
  proof -
    have "vs' = ?F vs" using r(4) that(1,2) by simp
    then show ?thesis using filled_column_complete[OF that(3,4,5,1)] by simp
  qed
  have long: "int r - g \<le> int (length (filter (\<lambda>j. isna (vs' ! (i + j))) [0..<r]))"
    if "0 \<le> g" "i + r \<le> length vs" "\<forall>j<r. isna (vs ! (i + j))" "g < int r"
  proof -
    have hr: "has_null_run (map isna vs) r" using that(2,3) by (rule run_has_null_run)
    have "?F vs = vs" using hr that(4) by (rule filled_column_long_run(1))
    then have "vs' = vs" using r(3) by auto
    then have "length (filter (\<lambda>j. isna (vs' ! (i + j))) [0..<r]) = r"
      using run_count_all[OF that(3)] by simp
    then show ?thesis using that(1) by simp
  qed
  show ?thesis using r(1,2) len full long by blast
qed

theorem interpolate_bounded_gaps_witness:
  "(\<exists>df' n vs'. interpolate_time_gaps
        \<lparr>nrows = 5, cols = [(''secs'', [Num 0, Num 1, Num 2, Num 3, Num 4]),
                            (''watts'', [Num 100, Missing, Missing, Num 160, Num 170])]\<rparr>
        ''secs'' Linear 3 None = Inr (df', n)
      \<and> map_of (cols df') ''watts'' = Some vs' \<and> count_na vs' = 0) \<and>
   (\<exists>df' n vs'. interpolate_time_gaps
        \<lparr>nrows = 6, cols = [(''secs'', [Num 0, Num 1, Num 2, Num 3, Num 4, Num 5]),
                            (''watts'', [Num 100, Missing, Missing, Missing, Missing, Num 170])]\<rparr>
        ''secs'' Linear 3 None = Inr (df', n)
      \<and> map_of (cols df') ''watts'' = Some vs'
      \<and> 1 \<le> int (length (filter (\<lambda>j. isna (vs' ! (1 + j))) [0..<4])))"
proof -
  let ?a = "[Num 100, Missing, Missing, Num 160, Num 170]"
  let ?b = "[Num 100, Missing, Missing, Missing, Missing, Num 170]"
  let ?dfa = "\<lparr>nrows = 5, cols = [(''secs'', [Num 0, Num 1, Num 2, Num 3, Num 4]), (''watts'', ?a)]\<rparr>"
  let ?dfb = "\<lparr>nrows = 6, cols = [(''secs'', [Num 0, Num 1, Num 2, Num 3, Num 4, Num 5]),
                                    (''watts'', ?b)]\<rparr>"
  have da: "distinct (column_names ?dfa)" and db: "distinct (column_names ?dfb)"
    by (simp_all add: column_names_def)
  have ma: "(''watts'', ?a) \<in> set (cols ?dfa)" and mb: "(''watts'', ?b) \<in> set (cols ?dfb)"
    by simp_all
  have na: "numeric_column ?a" and nb: "numeric_column ?b" by (simp_all add: numeric_column_def)
  have ha: "Linear \<noteq> MethodNone \<and> ''watts'' \<noteq> ''secs''
      \<and> int (longest_run (map isna ?a)) \<le> 3 \<and> ?a \<noteq> []
      \<and> (if Linear = Bfill then last ?a \<noteq> Missing else hd ?a \<noteq> Missing)"
    by (simp add: isna_def)
  have hb: "(0::int) \<le> 3 \<and> 1 + 4 \<le> length ?b \<and> (\<forall>j<4. isna (?b ! (1 + j))) \<and> (3::int) < int 4"
    by (simp add: isna_def nth_Cons')
  from interpolate_bounded_gaps[OF da ma na, where fill_method = Linear and g = 3
      and time_col = "''secs''" and i = 0 and r = 0] ha
  have A: "\<exists>df' n vs'. interpolate_time_gaps ?dfa ''secs'' Linear 3 None = Inr (df', n)
      \<and> map_of (cols df') ''watts'' = Some vs' \<and> count_na vs' = 0"
    by blast
  from interpolate_bounded_gaps[OF db mb nb, where fill_method = Linear and g = 3
      and time_col = "''secs''" and i = 1 and r = 4] hb
  have "\<exists>df' n vs'. interpolate_time_gaps ?dfb ''secs'' Linear 3 None = Inr (df', n)
      \<and> map_of (cols df') ''watts'' = Some vs'
      \<and> int 4 - 3 \<le> int (length (filter (\<lambda>j. isna (vs' ! (1 + j))) [0..<4]))"
    by blast
  then have B: "\<exists>df' n vs'. interpolate_time_gaps ?dfb ''secs'' Linear 3 None = Inr (df', n)
      \<and> map_of (cols df') ''watts'' = Some vs'
      \<and> 1 \<le> int (length (filter (\<lambda>j. isna (vs' ! (1 + j))) [0..<4]))"
    by simp
  show ?thesis using A B by blast
qed

text \<open>
  C5 as stated fails twice.  A column that starts with a null keeps it under the default
  linear interpolation, although its longest run of nulls (1) is within the bound (5).
  With the bound \<open>- 1\<close> a run of two nulls stays as it is, so two nulls remain in it,
  fewer than \<open>2 - (- 1) = 3\<close>.
\<close>

theorem interpolate_bounded_gaps_counterexample:
  "int (longest_run (map isna [Missing, Num 110, Num 120])) \<le> 5 \<and>
   interpolate_time_gaps
     \<lparr>nrows = 3, cols = [(''secs'', [Num 0, Num 1, Num 2]),
                         (''watts'', [Missing, Num 110, Num 120])]\<rparr>
     ''secs'' Linear 5 None
   = Inr (\<lparr>nrows = 3, cols = [(''secs'', [Num 0, Num 1, Num 2]),
                               (''watts'', [Missing, Num 110, Num 120])]\<rparr>, 0) \<and>
   count_na [Missing, Num 110, Num 120] = 1 \<and>
   interpolate_time_gaps
     \<lparr>nrows = 4, cols = [(''secs'', [Num 0, Num 1, Num 2, Num 3]),
                         (''watts'', [Num 100, Missing, Missing, Num 170])]\<rparr>
     ''secs'' Linear (- 1) None
   = Inr (\<lparr>nrows = 4, cols = [(''secs'', [Num 0, Num 1, Num 2, Num 3]),
                               (''watts'', [Num 100, Missing, Missing, Num 170])]\<rparr>, 0) \<and>
   count_na [Num 100, Missing, Missing, Num 170] = 2 \<and> (2::int) - (- 1) = 3"
  by (simp add: interp_eval)

section \<open>Sampling rate and resampling\<close>

lemmas rate_eval =
  detect_sampling_rate_def numeric_column_def cell_values_def dropna_def diff_def sub_opt_def
  median_def Let_def

lemma detect_1hz:
  "detect_sampling_rate
     \<lparr>nrows = 6, cols = [(''secs'', [Num 0, Num 1, Num 2, Num 3, Num 4, Num 5])]\<rparr> ''secs''
   = Inr 1"
  by (simp add: rate_eval)

lemma detect_10hz:
  "detect_sampling_rate
     \<lparr>nrows = 11, cols = [(''secs'', [Num 0, Num (1/10), Num (2/10), Num (3/10), Num (4/10),
         Num (5/10), Num (6/10), Num (7/10), Num (8/10), Num (9/10), Num 1])]\<rparr> ''secs''
   = Inr 10"
  by (simp add: rate_eval)

lemma median_bounds:
  assumes "xs \<noteq> []" "\<forall>x\<in>set xs. lo \<le> x \<and> x \<le> hi"
  shows "lo \<le> median xs \<and> median xs \<le> hi"
proof -
  let ?s = "sort xs"
  let ?n = "length ?s"
  have n: "0 < ?n" using assms(1) by simp
  have mem: "\<And>i. i < ?n \<Longrightarrow> lo \<le> ?s ! i \<and> ?s ! i \<le> hi"
  proof -
    fix i assume "i < ?n"
    then have "?s ! i \<in> set ?s" by (rule nth_mem)
    then show "lo \<le> ?s ! i \<and> ?s ! i \<le> hi" using assms(2) by simp
  qed
  show ?thesis
  proof (cases "?n mod 2 = 1")
    case True
    have "?n div 2 < ?n" using n by simp
    then show ?thesis using True mem[of "?n div 2"] by (simp add: median_def Let_def)
  next
    case False
    have a: "?n div 2 < ?n" using n by simp
    then have b: "?n div 2 - 1 < ?n" by simp
    have "lo \<le> (?s ! (?n div 2 - 1) + ?s ! (?n div 2)) / 2
        \<and> (?s ! (?n div 2 - 1) + ?s ! (?n div 2)) / 2 \<le> hi"
      using mem[OF a] mem[OF b] by simp
    then show ?thesis using False by (simp add: median_def Let_def)
  qed
qed

lemma detect_small_table: "nrows df < 2 \<Longrightarrow> detect_sampling_rate df time_col = Inr 1"
  by (simp add: detect_sampling_rate_def split: option.splits)

lemma detect_nonpositive_median:
  assumes "map_of (cols df) time_col = Some tvs" "numeric_column tvs"
    "dropna (diff (cell_values tvs)) \<noteq> []" "median (dropna (diff (cell_values tvs))) \<le> 0"
  shows "detect_sampling_rate df time_col = Inr 1"
  using assms by (simp add: detect_sampling_rate_def Let_def)

lemma detect_within_band:
  assumes "map_of (cols df) time_col = Some tvs" "numeric_column tvs" "2 \<le> nrows df"
    "dropna (diff (cell_values tvs)) \<noteq> []"
    "\<forall>d\<in>set (dropna (diff (cell_values tvs))). 2 / 21 \<le> d \<and> d \<le> 2 / 19"
  shows "\<exists>x. detect_sampling_rate df time_col = Inr x \<and> 19 / 2 \<le> x \<and> x \<le> 21 / 2"
proof -
  let ?ds = "dropna (diff (cell_values tvs))"
  have b: "2 / 21 \<le> median ?ds \<and> median ?ds \<le> 2 / 19"
    using assms(4,5) by (rule median_bounds)
  then have pos: "0 < median ?ds" by linarith
  have r: "detect_sampling_rate df time_col = Inr (1 / median ?ds)"
    using assms(1-4) pos by (simp add: detect_sampling_rate_def Let_def)
  have "19 / 2 \<le> 1 / median ?ds"
  proof -
    have "1 / (2 / 19) \<le> 1 / median ?ds" using b pos by (intro divide_left_mono) simp_all
    then show ?thesis by simp
  qed
  moreover have "1 / median ?ds \<le> 21 / 2"
  proof -
    have "1 / median ?ds \<le> 1 / (2 / 21)" using b pos by (intro divide_left_mono) simp_all
    then show ?thesis by simp
  qed
  ultimately show ?thesis using r by blast
qed

text \<open>
  C9.  \<open>detect_sampling_rate\<close> returns exactly 1 for every table with fewer than two
  rows, and for every table whose median time difference is not positive; it raises in
  neither case.  On the time column 0, 1, ..., 5 it returns exactly 1; on 0.0, 0.1, ...,
  1.0 it returns a value between 9.5 and 10.5 (as does every time column whose successive
  differences all lie between 2/21 and 2/19).  Numbers are real numbers here.
\<close>

theorem detect_sampling_rate_spec:
  "(nrows df < 2 \<longrightarrow> detect_sampling_rate df time_col = Inr 1)
   \<and> (map_of (cols df) time_col = Some tvs \<and> numeric_column tvs
        \<and> dropna (diff (cell_values tvs)) \<noteq> []
        \<and> median (dropna (diff (cell_values tvs))) \<le> 0
       \<longrightarrow> detect_sampling_rate df time_col = Inr 1)
   \<and> detect_sampling_rate
        \<lparr>nrows = 6, cols = [(''secs'', [Num 0, Num 1, Num 2, Num 3, Num 4, Num 5])]\<rparr> ''secs''
       = Inr 1
   \<and> (\<exists>x. detect_sampling_rate
        \<lparr>nrows = 11, cols = [(''secs'', [Num 0, Num (1/10), Num (2/10), Num (3/10), Num (4/10),
           Num (5/10), Num (6/10), Num (7/10), Num (8/10), Num (9/10), Num 1])]\<rparr> ''secs''
         = Inr x \<and> 19 / 2 \<le> x \<and> x \<le> 21 / 2)
   \<and> (map_of (cols df) time_col = Some tvs \<and> numeric_column tvs \<and> 2 \<le> nrows df
        \<and> dropna (diff (cell_values tvs)) \<noteq> []
        \<and> (\<forall>d\<in>set (dropna (diff (cell_values tvs))). 2 / 21 \<le> d \<and> d \<le> 2 / 19)
       \<longrightarrow> (\<exists>x. detect_sampling_rate df time_col = Inr x \<and> 19 / 2 \<le> x \<and> x \<le> 21 / 2))"
  using detect_small_table[of df time_col] detect_nonpositive_median[of df time_col tvs]
    detect_1hz detect_10hz detect_within_band[of df time_col tvs]
  by simp

theorem detect_sampling_rate_spec_witness:
  "(nrows \<lparr>nrows = 1, cols = [(''secs'', [Str ''start''])]\<rparr> < 2
      \<and> detect_sampling_rate \<lparr>nrows = 1, cols = [(''secs'', [Str ''start''])]\<rparr> ''secs'' = Inr 1)
   \<and> (median (dropna (diff (cell_values [Num 3, Num 2, Num 1]))) \<le> 0
      \<and> detect_sampling_rate \<lparr>nrows = 3, cols = [(''secs'', [Num 3, Num 2, Num 1])]\<rparr> ''secs''
          = Inr 1)
   \<and> (\<exists>x. detect_sampling_rate
         \<lparr>nrows = 3, cols = [(''secs'', [Num 0, Num (1/10), Num (2/10)])]\<rparr> ''secs'' = Inr x
         \<and> 19 / 2 \<le> x \<and> x \<le> 21 / 2)"
proof -
  let ?t1 = "\<lparr>nrows = 1, cols = [(''secs'', [Str ''start''])]\<rparr>"
  let ?t2 = "\<lparr>nrows = 3, cols = [(''secs'', [Num 3, Num 2, Num 1])]\<rparr>"
  let ?t3 = "\<lparr>nrows = 3, cols = [(''secs'', [Num 0, Num (1/10), Num (2/10)])]\<rparr>"
  have a: "nrows ?t1 < 2" by simp
  have b: "map_of (cols ?t2) ''secs'' = Some [Num 3, Num 2, Num 1]
      \<and> numeric_column [Num 3, Num 2, Num 1]
      \<and> dropna (diff (cell_values [Num 3, Num 2, Num 1])) \<noteq> []
      \<and> median (dropna (diff (cell_values [Num 3, Num 2, Num 1]))) \<le> 0"
    by (simp add: rate_eval)
  have c: "map_of (cols ?t3) ''secs'' = Some [Num 0, Num (1/10), Num (2/10)]
      \<and> numeric_column [Num 0, Num (1/10), Num (2/10)] \<and> 2 \<le> nrows ?t3
      \<and> dropna (diff (cell_values [Num 0, Num (1/10), Num (2/10)])) \<noteq> []
      \<and> (\<forall>d\<in>set (dropna (diff (cell_values [Num 0, Num (1/10), Num (2/10)]))).
            2 / 21 \<le> d \<and> d \<le> 2 / 19)"
    by (simp add: rate_eval)
  have A: "detect_sampling_rate ?t1 ''secs'' = Inr 1"
    using detect_sampling_rate_spec[of ?t1 "''secs''" "[]"] a by blast
  have B: "detect_sampling_rate ?t2 ''secs'' = Inr 1"
    using detect_sampling_rate_spec[of ?t2 "''secs''" "[Num 3, Num 2, Num 1]"] b by blast
  have C: "\<exists>x. detect_sampling_rate ?t3 ''secs'' = Inr x \<and> 19 / 2 \<le> x \<and> x \<le> 21 / 2"
    using detect_sampling_rate_spec[of ?t3 "''secs''" "[Num 0, Num (1/10), Num (2/10)]"] c
    by blast
  show ?thesis using a b A B C by blast
qed

text \<open>
  C10.  For every table that lacks the named time column, \<open>resample_to_frequency\<close>
  raises \<open>ValueError\<close>; it does not return the table, whereas \<open>detect_sampling_rate\<close>
  answers 1 for the same table.
\<close>

theorem resample_requires_time_column:
  "time_col \<notin> set (column_names df) \<longrightarrow>
     resample_to_frequency pd_bucket pd_groupby_agg df time_col target_freq current_freq how
       = Inl (time_column_missing time_col)
     \<and> detect_sampling_rate df time_col = Inr 1"
proof
  assume "time_col \<notin> set (column_names df)"
  then have "map_of (cols df) time_col = None"
    by (simp add: column_names_def map_of_eq_None_iff)
  then show "resample_to_frequency pd_bucket pd_groupby_agg df time_col target_freq current_freq how
       = Inl (time_column_missing time_col)
     \<and> detect_sampling_rate df time_col = Inr 1"
    by (simp add: resample_to_frequency_def detect_sampling_rate_def)
qed

theorem resample_requires_time_column_witness:
  "''secs'' \<notin> set (column_names \<lparr>nrows = 2, cols = [(''watts'', [Num 100, Num 110])]\<rparr>) \<and>
   resample_to_frequency (\<lambda>tvs f. Inl TypeError) (\<lambda>d k a. Inl TypeError)
       \<lparr>nrows = 2, cols = [(''watts'', [Num 100, Num 110])]\<rparr> ''secs'' 1 None Mean
     = Inl (ValueError (''Time column '' @ [CHR 0x27] @ ''secs'' @ [CHR 0x27]
                          @ '' not found in DataFrame''))"
proof -
  have a: "''secs'' \<notin> set (column_names \<lparr>nrows = 2, cols = [(''watts'', [Num 100, Num 110])]\<rparr>)"
    by (simp add: column_names_def)
  then show ?thesis
    using resample_requires_time_column
      [where time_col = "''secs''"
         and df = "\<lparr>nrows = 2, cols = [(''watts'', [Num 100, Num 110])]\<rparr>"
         and pd_bucket = "\<lambda>tvs f. Inl TypeError" and pd_groupby_agg = "\<lambda>d k a. Inl TypeError"
         and target_freq = 1 and current_freq = None and how = Mean]
    by (simp add: time_column_missing_def)
qed

end
